theory Spec2Isabelle
  imports Main "HOL-Library.Sublist"
begin

section \<open>Byte strings and the Go library functions the proxy calls\<close>

text \<open>
  A Go \<^verbatim>\<open>string\<close> and a \<^verbatim>\<open>[]byte\<close> are sequences of bytes; both are modelled as
  \<^typ>\<open>string\<close> (a list of 8-bit characters). Indices and lengths are \<^typ>\<open>nat\<close>: the proxy
  never holds more than a few kilobytes, so Go's 64-bit \<^verbatim>\<open>int\<close> cannot wrap.
\<close>

definition byte :: "char \<Rightarrow> nat" where
  "byte c = of_char c"

definition CR :: char where
  "CR = CHR 0x0D"

definition LF :: char where
  "LF = CHR 0x0A"

definition CRLF :: string where
  "CRLF = [CR, LF]"

definition CRLFCRLF :: string where
  "CRLFCRLF = [CR, LF, CR, LF]"

text \<open>\<^verbatim>\<open>strings.Index\<close> / \<^verbatim>\<open>bytes.Index\<close>: the offset of the first occurrence, \<open>None\<close>
  for Go's \<open>-1\<close>.\<close>

fun Index :: "string \<Rightarrow> string \<Rightarrow> nat option" where
  "Index [] sep = (if sep = [] then Some 0 else None)"
| "Index (c # cs) sep =
     (if prefix sep (c # cs) then Some 0 else map_option Suc (Index cs sep))"

definition Contains :: "string \<Rightarrow> string \<Rightarrow> bool" where
  "Contains s sub = (Index s sub \<noteq> None)"

definition HasPrefix :: "string \<Rightarrow> string \<Rightarrow> bool" where
  "HasPrefix s p = prefix p s"

text \<open>
  \<^verbatim>\<open>bytes.genSplit\<close> for a non-empty separator: at most \<open>k\<close> cuts, each at the first
  occurrence of the separator in what is left. \<^verbatim>\<open>bytes.Split\<close> allows as many cuts as there
  are occurrences (never more than the length), \<^verbatim>\<open>bytes.SplitN(s, sep, 2)\<close> allows one cut,
  and none when \<open>s\<close> is empty (the library caps \<open>n\<close> at \<open>len(s) + 1\<close>). The proxy calls
  both with the constant separators CR LF and CR LF CR LF only; the library's
  empty-separator mode (one piece per UTF-8 sequence) is outside this model.
\<close>

fun genSplit :: "string \<Rightarrow> string \<Rightarrow> nat \<Rightarrow> string list" where
  "genSplit s sep 0 = [s]"
| "genSplit s sep (Suc k) =
     (case Index s sep of
        None \<Rightarrow> [s]
      | Some m \<Rightarrow> take m s # genSplit (drop (m + length sep) s) sep k)"

definition Split :: "string \<Rightarrow> string \<Rightarrow> string list" where
  "Split s sep = genSplit s sep (length s)"

definition SplitN2 :: "string \<Rightarrow> string \<Rightarrow> string list" where
  "SplitN2 s sep = genSplit s sep (min 2 (length s + 1) - 1)"

fun Join :: "string list \<Rightarrow> string \<Rightarrow> string" where
  "Join [] sep = []"
| "Join [x] sep = x"
| "Join (x # y # ys) sep = x @ sep @ Join (y # ys) sep"

subsection \<open>UTF-8 and white space\<close>

text \<open>
  \<^verbatim>\<open>strings.TrimSpace\<close> and \<^verbatim>\<open>strings.ToLower\<close> read their argument as UTF-8. A rune is
  its code point; an invalid byte decodes to \<open>U+FFFD\<close> with width 1, as in
  \<^verbatim>\<open>utf8.DecodeRuneInString\<close>.
\<close>

definition RuneError :: nat where
  "RuneError = 0xFFFD"

fun DecodeRune :: "string \<Rightarrow> nat \<times> nat" where
  "DecodeRune [] = (RuneError, 0)"
| "DecodeRune (c0 # rest) =
     (let b0 = byte c0 in
      if b0 < 0x80 then (b0, 1)
      else if b0 < 0xC2 \<or> 0xF4 < b0 then (RuneError, 1)
      else
        (let sz = (if b0 < 0xE0 then 2 else if b0 < 0xF0 then 3 else (4::nat));
             lo = (if b0 = 0xE0 then 0xA0 else if b0 = 0xF0 then 0x90 else 0x80);
             hi = (if b0 = 0xED then 0x9F else if b0 = 0xF4 then 0x8F else 0xBF)
         in if length (c0 # rest) < sz then (RuneError, 1)
            else
              (let b1 = byte (rest ! 0) in
               if b1 < lo \<or> hi < b1 then (RuneError, 1)
               else if sz = 2 then ((b0 mod 32) * 64 + b1 mod 64, 2)
               else
                 (let b2 = byte (rest ! 1) in
                  if b2 < 0x80 \<or> 0xBF < b2 then (RuneError, 1)
                  else if sz = 3
                    then ((b0 mod 16) * 4096 + (b1 mod 64) * 64 + b2 mod 64, 3)
                  else
                    (let b3 = byte (rest ! 2) in
                     if b3 < 0x80 \<or> 0xBF < b3 then (RuneError, 1)
                     else ((b0 mod 8) * 262144 + (b1 mod 64) * 4096
                             + (b2 mod 64) * 64 + b3 mod 64, 4))))))"

text \<open>\<^verbatim>\<open>utf8.RuneStart\<close>: the byte is not a continuation byte.\<close>

definition RuneStart :: "char \<Rightarrow> bool" where
  "RuneStart c = (byte c < 0x80 \<or> 0xC0 \<le> byte c)"

text \<open>
  \<^verbatim>\<open>utf8.DecodeLastRuneInString\<close>: an ASCII last byte is its own rune; otherwise the
  decoder goes back to the nearest rune start among the three bytes before the last
  one (one byte further, or to offset 0, when there is none), decodes forward from
  there, and accepts the rune only if it ends exactly at the end of the string.
\<close>

definition DecodeLastRune :: "string \<Rightarrow> nat \<times> nat" where
  "DecodeLastRune s =
     (if s = [] then (RuneError, 0)
      else if byte (last s) < 0x80 then (byte (last s), 1)
      else
        (let end = length s;
             lim = end - 4;
             start = (case filter (\<lambda>k. RuneStart (s ! k)) (rev [lim ..< end - 1]) of
                        k # _ \<Rightarrow> k
                      | [] \<Rightarrow> lim - 1);
             (r, size) = DecodeRune (drop start s)
         in if start + size \<noteq> end then (RuneError, 1) else (r, size)))"

text \<open>\<^verbatim>\<open>unicode.IsSpace\<close>: the Unicode White_Space property.\<close>

definition IsSpace :: "nat \<Rightarrow> bool" where
  "IsSpace r =
     ((9 \<le> r \<and> r \<le> 13) \<or> r = 0x20 \<or> r = 0x85 \<or> r = 0xA0 \<or> r = 0x1680
      \<or> (0x2000 \<le> r \<and> r \<le> 0x200A) \<or> r = 0x2028 \<or> r = 0x2029 \<or> r = 0x202F
      \<or> r = 0x205F \<or> r = 0x3000)"

text \<open>The six ASCII white-space bytes of the library's fast path: tab, line feed,
  vertical tab, form feed, carriage return, space.\<close>

definition asciiSpace :: "char \<Rightarrow> bool" where
  "asciiSpace c = ((9 \<le> byte c \<and> byte c \<le> 13) \<or> byte c = 0x20)"

lemma DecodeRune_width: "s \<noteq> [] \<Longrightarrow> 0 < snd (DecodeRune s)"
  by (cases s) (simp_all add: Let_def)

lemma DecodeLastRune_width: "s \<noteq> [] \<Longrightarrow> 0 < snd (DecodeLastRune s)"
proof -
  assume ne: "s \<noteq> []"
  define start where
    "start = (case filter (\<lambda>k. RuneStart (s ! k)) (rev [length s - 4 ..< length s - 1]) of
                k # _ \<Rightarrow> k
              | [] \<Rightarrow> length s - 4 - 1)"
  have "start < length s"
  proof (cases "filter (\<lambda>k. RuneStart (s ! k)) (rev [length s - 4 ..< length s - 1])")
    case Nil
    then show ?thesis using ne by (simp add: start_def)
  next
    case (Cons k ks)
    then have "k \<in> set (filter (\<lambda>k. RuneStart (s ! k)) (rev [length s - 4 ..< length s - 1]))"
      by simp
    then have "k < length s - 1" by simp
    then show ?thesis using Cons by (simp add: start_def)
  qed
  then show ?thesis
    unfolding DecodeLastRune_def Let_def start_def[symmetric]
    by (auto split: prod.splits)
qed

text \<open>\<^verbatim>\<open>strings.TrimLeftFunc\<close> and \<^verbatim>\<open>strings.TrimRightFunc\<close>: drop leading (trailing)
  runes while the predicate holds.\<close>

function TrimLeftFunc :: "(nat \<Rightarrow> bool) \<Rightarrow> string \<Rightarrow> string" where
  "TrimLeftFunc f s =
     (if s = [] then []
      else if f (fst (DecodeRune s)) then TrimLeftFunc f (drop (snd (DecodeRune s)) s)
      else s)"
  by pat_completeness auto
termination
  using DecodeRune_width by (relation "measure (\<lambda>(f, s). length s)") auto

function TrimRightFunc :: "(nat \<Rightarrow> bool) \<Rightarrow> string \<Rightarrow> string" where
  "TrimRightFunc f s =
     (if s = [] then []
      else if f (fst (DecodeLastRune s))
        then TrimRightFunc f (take (length s - snd (DecodeLastRune s)) s)
      else s)"
  by pat_completeness auto
termination
  using DecodeLastRune_width by (relation "measure (\<lambda>(f, s). length s)") auto

definition TrimFunc :: "(nat \<Rightarrow> bool) \<Rightarrow> string \<Rightarrow> string" where
  "TrimFunc f s = TrimRightFunc f (TrimLeftFunc f s)"

text \<open>
  \<^verbatim>\<open>strings.TrimSpace\<close>. The library first skips ASCII white space from the left; at the
  first byte \<open>\<ge> 0x80\<close> it hands what is left to \<^verbatim>\<open>TrimFunc\<close>. Then it does the same
  from the right (\<open>trimStop\<close>), handing over to \<^verbatim>\<open>TrimRightFunc\<close>.
\<close>

function trimStop :: "string \<Rightarrow> string" where
  "trimStop s =
     (if s = [] then []
      else if 0x80 \<le> byte (last s) then TrimRightFunc IsSpace s
      else if asciiSpace (last s) then trimStop (butlast s)
      else s)"
  by pat_completeness auto
termination
  by (relation "measure length") auto

fun TrimSpace :: "string \<Rightarrow> string" where
  "TrimSpace [] = []"
| "TrimSpace (c # cs) =
     (if 0x80 \<le> byte c then TrimFunc IsSpace (c # cs)
      else if asciiSpace c then TrimSpace cs
      else trimStop (c # cs))"

text \<open>
  \<^verbatim>\<open>utf8.AppendRune\<close>: surrogates and values above \<open>U+10FFFF\<close> are written as
  \<open>U+FFFD\<close>.
\<close>

definition EncodeRune :: "nat \<Rightarrow> string" where
  "EncodeRune r =
     (if r < 0x80 then [char_of r]
      else if r < 0x800 then [char_of (0xC0 + r div 64), char_of (0x80 + r mod 64)]
      else if (0xD800 \<le> r \<and> r \<le> 0xDFFF) \<or> 0x10FFFF < r
        then [CHR 0xEF, CHR 0xBF, CHR 0xBD]
      else if r < 0x10000
        then [char_of (0xE0 + r div 4096), char_of (0x80 + (r div 64) mod 64),
              char_of (0x80 + r mod 64)]
      else [char_of (0xF0 + r div 262144), char_of (0x80 + (r div 4096) mod 64),
            char_of (0x80 + (r div 64) mod 64), char_of (0x80 + r mod 64)])"

text \<open>
  \<^verbatim>\<open>strings.Map\<close>: every rune of the string (an invalid byte counts as \<open>U+FFFD\<close>) is
  replaced by the encoding of its image.
\<close>

function Map :: "(nat \<Rightarrow> nat) \<Rightarrow> string \<Rightarrow> string" where
  "Map mapping s =
     (if s = [] then []
      else EncodeRune (mapping (fst (DecodeRune s)))
             @ Map mapping (drop (snd (DecodeRune s)) s))"
  by pat_completeness auto
termination
  using DecodeRune_width by (relation "measure (\<lambda>(m, s). length s)") auto

definition lowerASCII :: "char \<Rightarrow> char" where
  "lowerASCII c = (if 0x41 \<le> byte c \<and> byte c \<le> 0x5A then char_of (byte c + 0x20) else c)"

text \<open>
  \<^verbatim>\<open>unicode.ToLower\<close>: ASCII runes are handled in the function itself; every other
  rune is looked up in the Unicode case table. That table lives in the Go runtime, not
  in this repository, so it is the parameter \<open>caseTable\<close> here.
\<close>

definition unicode_ToLower :: "(nat \<Rightarrow> nat) \<Rightarrow> nat \<Rightarrow> nat" where
  "unicode_ToLower caseTable r =
     (if r \<le> 0x7F then (if 0x41 \<le> r \<and> r \<le> 0x5A then r + 0x20 else r)
      else caseTable r)"

text \<open>
  \<^verbatim>\<open>strings.ToLower\<close>. A string of ASCII bytes is lowered byte by byte; any other string
  goes through \<^verbatim>\<open>Map(unicode.ToLower, s)\<close>. The case table is only ever consulted for
  strings holding a byte \<open>\<ge> 0x80\<close>.
\<close>

definition ToLower :: "(nat \<Rightarrow> nat) \<Rightarrow> string \<Rightarrow> string" where
  "ToLower caseTable s =
     (if list_all (\<lambda>c. byte c < 0x80) s then map lowerASCII s
      else Map (unicode_ToLower caseTable) s)"

text \<open>A case table that leaves every rune alone: it stands in for the runtime's table
  in closed examples, all of which are ASCII and never consult it.\<close>

definition noCaseTable :: "nat \<Rightarrow> nat" where
  "noCaseTable r = r"

section \<open>Request inspection and the keep-alive decision\<close>

text \<open>A Go run-time panic: the goroutine does not return, the process dies.\<close>

datatype panic = SliceBoundsOutOfRange nat nat

text \<open>
  The \<^verbatim>\<open>for ... range lines\<close> loop of \<^verbatim>\<open>parseHTTPHeaders\<close>: the first line that starts
  with the 11 bytes \<^verbatim>\<open>Connection:\<close> decides, and the loop breaks there. The slice
  expression \<^verbatim>\<open>line[len("Connection: "):]\<close> is \<^verbatim>\<open>line[12:len(line)]\<close>; Go panics when
  \<open>12 > len(line)\<close>.
\<close>

fun connectionOf :: "string list \<Rightarrow> panic + string" where
  "connectionOf [] = Inr []"
| "connectionOf (line # lines) =
     (if HasPrefix line ''Connection:''
      then (if length ''Connection: '' \<le> length line
            then Inr (TrimSpace (drop (length ''Connection: '') line))
            else Inl (SliceBoundsOutOfRange (length ''Connection: '') (length line)))
      else connectionOf lines)"

text \<open>The first statement of \<^verbatim>\<open>parseHTTPHeaders\<close>: the three bytes after the first
  \<^verbatim>\<open>HTTP/\<close>, when more than eight bytes follow its start.\<close>

definition versionOf :: "string \<Rightarrow> string" where
  "versionOf request =
     (case Index request ''HTTP/'' of
        None \<Rightarrow> []
      | Some idx \<Rightarrow>
          if idx + 8 < length request then take 3 (drop (idx + 5) request) else [])"

definition parseHTTPHeaders :: "string \<Rightarrow> panic + (string \<times> string)" where
  "parseHTTPHeaders request =
     (let version = versionOf request;
          lines = Split request CRLF
      in case connectionOf lines of
           Inl p \<Rightarrow> Inl p
         | Inr connection \<Rightarrow> Inr (version, connection))"

definition shouldKeepAlive :: "(nat \<Rightarrow> nat) \<Rightarrow> string \<Rightarrow> string \<Rightarrow> bool" where
  "shouldKeepAlive caseTable version connHeader =
     (let ver = TrimSpace version;
          ch = ToLower caseTable (TrimSpace connHeader)
      in if ver = ''1.0'' \<and> ch = ''keep-alive'' then True
         else if ver = ''1.1'' \<and> ch \<noteq> ''close'' then True
         else False)"

declare TrimLeftFunc.simps [simp del] TrimRightFunc.simps [simp del] Map.simps [simp del]

subsection \<open>The decision table of the specification\<close>

text \<open>Two strings are equal up to letter case when lower-casing makes them equal.\<close>

definition equalFold :: "(nat \<Rightarrow> nat) \<Rightarrow> string \<Rightarrow> string \<Rightarrow> bool" where
  "equalFold caseTable a b = (ToLower caseTable a = ToLower caseTable b)"

text \<open>
  The table of the specification, row by row: version 1.0 continues only on
  \<^verbatim>\<open>keep-alive\<close>, version 1.1 continues unless \<^verbatim>\<open>close\<close>, any other version terminates.
  The Connection value is trimmed and compared up to case; the version is compared as
  it is given.
\<close>

definition decisionTable :: "(nat \<Rightarrow> nat) \<Rightarrow> string \<Rightarrow> string \<Rightarrow> bool" where
  "decisionTable caseTable version connectionHeaderValue =
     (if version = ''1.0''
        then equalFold caseTable (TrimSpace connectionHeaderValue) ''keep-alive''
      else if version = ''1.1''
        then \<not> equalFold caseTable (TrimSpace connectionHeaderValue) ''close''
      else False)"

section \<open>Connections\<close>

text \<open>
  A \<^verbatim>\<open>net.Conn\<close> is a reader half and a writer half. The peer and the network are a
  script: what each successive \<^verbatim>\<open>Read\<close> will find, and how each successive \<^verbatim>\<open>Write\<close>
  will be answered. An error is \<^verbatim>\<open>io.EOF\<close> or anything else.
\<close>

datatype ioerr = EOF | Failure

text \<open>
  \<open>Deliver bs e\<close>: the bytes \<open>bs\<close> arrive, and the read that takes the last of them
  returns the error \<open>e\<close> with them (a TCP connection reports an error with no bytes:
  \<open>Deliver [] (Some e)\<close>). \<open>Stall\<close>: the peer sends nothing more and keeps the
  connection open, so the read never returns. When the script is used up the stream is
  at its clean end: every further read returns \<open>(0, io.EOF)\<close>.
\<close>

datatype rd_event = Deliver string "ioerr option" | Stall

type_synonym reader = "rd_event list"

text \<open>
  \<open>Accept k e\<close>: the write takes the first \<open>k\<close> bytes offered (all of them when
  fewer are offered) and returns that count with the error \<open>e\<close>. When the script is
  used up every write takes everything and succeeds.
\<close>

datatype wr_event = Accept nat "ioerr option"

record writer =
  writes :: "wr_event list"
  sent :: string

record conn =
  rd :: reader
  wr :: writer

text \<open>A call either returns or blocks for ever (the proxy sets no deadline).\<close>

datatype 'a outcome = Returns 'a | Blocked

text \<open>\<^verbatim>\<open>Read(buf)\<close> with \<open>len(buf) = k\<close>: at most \<open>k\<close> bytes of what has arrived; the
  rest stays for the next read.\<close>

fun Read :: "nat \<Rightarrow> reader \<Rightarrow> (string \<times> ioerr option) outcome \<times> reader" where
  "Read k [] = (Returns ([], Some EOF), [])"
| "Read k (Stall # evs) = (Blocked, Stall # evs)"
| "Read k (Deliver bs e # evs) =
     (if length bs \<le> k then (Returns (bs, e), evs)
      else (Returns (take k bs, None), Deliver (drop k bs) e # evs))"

fun Write :: "string \<Rightarrow> writer \<Rightarrow> (nat \<times> ioerr option) \<times> writer" where
  "Write p w =
     (case writes w of
        [] \<Rightarrow> ((length p, None), w\<lparr>sent := sent w @ p\<rparr>)
      | Accept k e # evs \<Rightarrow>
          ((min k (length p), e), w\<lparr>writes := evs, sent := sent w @ take k p\<rparr>))"

text \<open>What is left to read: the measure that makes every read loop end.\<close>

fun weight :: "rd_event \<Rightarrow> nat" where
  "weight (Deliver bs e) = Suc (length bs)"
| "weight Stall = 1"

definition pending :: "reader \<Rightarrow> nat" where
  "pending src = sum_list (map weight src)"

lemma Read_pending:
  "Read k src = (Returns (data, None), src') \<Longrightarrow> 0 < k \<Longrightarrow> pending src' < pending src"
  by (induction k src rule: Read.induct) (auto simp: pending_def split: if_splits)

lemma Read_pending_le: "Read k src = (r, src') \<Longrightarrow> pending src' \<le> pending src"
  by (induction k src rule: Read.induct) (auto simp: pending_def split: if_splits)

section \<open>The raw copy loops\<close>

datatype error =
    HeaderReadError ioerr
  | MalformedHeaders
  | HeaderWriteError ioerr
  | LeftoverWriteError ioerr
  | WriteError ioerr
  | ReadError ioerr

text \<open>The inner loop of \<^verbatim>\<open>copyData\<close> (\<^verbatim>\<open>for offset < n\<close>): writes what is left of the
  chunk until all of it is taken or a write fails.\<close>

function flushRest :: "string \<Rightarrow> nat \<Rightarrow> writer \<Rightarrow> ioerr option \<times> writer" where
  "flushRest chunk offset dst =
     (if offset < length chunk
      then (case Write (drop offset chunk) dst of
              ((w, Some werr), dst') \<Rightarrow> (Some werr, dst')
            | ((w, None), dst') \<Rightarrow> flushRest chunk (offset + w) dst')
      else (None, dst))"
  by pat_completeness auto
termination
  by (relation "measure (\<lambda>(chunk, offset, dst). length (writes dst) + (length chunk - offset))")
    (auto split: list.splits wr_event.splits)

text \<open>The write step of \<^verbatim>\<open>copyData\<close> for one chunk: one write, then the inner loop
  when fewer bytes were taken than offered.\<close>

definition writeChunk :: "string \<Rightarrow> writer \<Rightarrow> ioerr option \<times> writer" where
  "writeChunk chunk dst =
     (case Write chunk dst of
        ((written, Some writeErr), dst') \<Rightarrow> (Some writeErr, dst')
      | ((written, None), dst') \<Rightarrow>
          if written < length chunk then flushRest chunk written dst' else (None, dst'))"

function copyData :: "writer \<Rightarrow> reader \<Rightarrow> error option outcome \<times> writer \<times> reader" where
  "copyData dst src =
     (case Read (32 * 1024) src of
        (Blocked, src') \<Rightarrow> (Blocked, dst, src')
      | (Returns (chunk, readErr), src') \<Rightarrow>
          (case (if chunk \<noteq> [] then writeChunk chunk dst else (None, dst)) of
             (Some writeErr, dst') \<Rightarrow> (Returns (Some (WriteError writeErr)), dst', src')
           | (None, dst') \<Rightarrow>
               (case readErr of
                  None \<Rightarrow> copyData dst' src'
                | Some EOF \<Rightarrow> (Returns None, dst', src')
                | Some Failure \<Rightarrow> (Returns (Some (ReadError Failure)), dst', src'))))"
  by pat_completeness auto
termination
  by (relation "measure (\<lambda>(dst, src). pending src)") (auto dest: Read_pending [OF sym])

text \<open>
  The loop of \<^verbatim>\<open>proxyData\<close> for the client-to-upstream direction: one write per chunk,
  its count discarded. The function returns nothing; what it logs on its way out is
  the result here.
\<close>

datatype logline =
    ErrorConnectingToUpstream
  | ErrorReadingFromClient
  | ErrorWritingToUpstream
  | ErrorWritingData
  | ErrorReadingData
  | ConnectionKeptAlive
  | ConnectionClosing

function passthrough :: "reader \<Rightarrow> writer \<Rightarrow> logline list outcome \<times> reader \<times> writer" where
  "passthrough src dst =
     (case Read 4096 src of
        (Blocked, src') \<Rightarrow> (Blocked, src', dst)
      | (Returns (chunk, err), src') \<Rightarrow>
          (case (if chunk \<noteq> [] then Write chunk dst else ((0, None), dst)) of
             ((written, Some writeErr), dst') \<Rightarrow> (Returns [ErrorWritingData], src', dst')
           | ((written, None), dst') \<Rightarrow>
               (case err of
                  None \<Rightarrow> passthrough src' dst'
                | Some EOF \<Rightarrow> (Returns [], src', dst')
                | Some Failure \<Rightarrow> (Returns [ErrorReadingData], src', dst'))))"
  by pat_completeness auto
termination
  by (relation "measure (\<lambda>(src, dst). pending src)") (auto dest: Read_pending [OF sym])

section \<open>The response relay\<close>

text \<open>The header scan (\<^verbatim>\<open>tmp\<close> has one byte): read, append, stop when the buffer
  contains CR LF CR LF. A read error ends it, whatever came with the error.\<close>

function readHeader :: "string \<Rightarrow> reader \<Rightarrow> (ioerr + string) outcome \<times> reader" where
  "readHeader headerBuf upstream =
     (case Read 1 upstream of
        (Blocked, upstream') \<Rightarrow> (Blocked, upstream')
      | (Returns (tmp, Some err), upstream') \<Rightarrow> (Returns (Inl err), upstream')
      | (Returns (tmp, None), upstream') \<Rightarrow>
          (if Contains (headerBuf @ tmp) CRLFCRLF
           then (Returns (Inr (headerBuf @ tmp)), upstream')
           else readHeader (headerBuf @ tmp) upstream'))"
  by pat_completeness auto
termination
  by (relation "measure (\<lambda>(headerBuf, upstream). pending upstream)") (auto dest: Read_pending [OF sym])

definition proxyResponseWithHeaderInjection ::
  "reader \<Rightarrow> writer \<Rightarrow> error option outcome \<times> reader \<times> writer" where
  "proxyResponseWithHeaderInjection upstream client =
     (case readHeader [] upstream of
        (Blocked, upstream1) \<Rightarrow> (Blocked, upstream1, client)
      | (Returns (Inl err), upstream1) \<Rightarrow>
          (Returns (Some (HeaderReadError err)), upstream1, client)
      | (Returns (Inr rawHeaders), upstream1) \<Rightarrow>
          (let parts = SplitN2 rawHeaders CRLFCRLF in
           if length parts < 2 then (Returns (Some MalformedHeaders), upstream1, client)
           else
             (let headerSection = parts ! 0;
                  leftover = parts ! 1;
                  lines = Split headerSection CRLF @ [''Foo: Bar''];
                  modifiedHeader = Join lines CRLF @ CRLFCRLF
              in case Write modifiedHeader client of
                   ((n, Some err), client1) \<Rightarrow>
                     (Returns (Some (HeaderWriteError err)), upstream1, client1)
                 | ((n, None), client1) \<Rightarrow>
                     (case (if leftover \<noteq> [] then Write leftover client1
                            else ((0, None), client1)) of
                        ((m, Some err), client2) \<Rightarrow>
                          (Returns (Some (LeftoverWriteError err)), upstream1, client2)
                      | ((m, None), client2) \<Rightarrow>
                          (case copyData client2 upstream1 of
                             (res, client3, upstream2) \<Rightarrow>
                               (res, upstream2, client3))))))"

text \<open>
  \<^verbatim>\<open>proxyData\<close>: the direction string selects the response relay, whose error is
  dropped, or the plain loop.
\<close>

definition proxyData ::
  "reader \<Rightarrow> writer \<Rightarrow> string \<Rightarrow> logline list outcome \<times> reader \<times> writer" where
  "proxyData srcConn destConn proxyDir =
     (if proxyDir = ''UPSTREAM -> CLIENT''
      then (case proxyResponseWithHeaderInjection srcConn destConn of
              (Blocked, src', dst') \<Rightarrow> (Blocked, src', dst')
            | (Returns err, src', dst') \<Rightarrow> (Returns [], src', dst'))
      else passthrough srcConn destConn)"

declare flushRest.simps [simp del] copyData.simps [simp del] passthrough.simps [simp del]
  readHeader.simps [simp del]

section \<open>The session\<close>

lemma passthrough_pending:
  "passthrough src dst = (r, src', dst') \<Longrightarrow> pending src' \<le> pending src"
proof (induction src dst arbitrary: r src' dst' rule: passthrough.induct)
  case (1 src dst)
  show ?case
    using "1.prems" "1.IH"
    apply (subst (asm) passthrough.simps)
    apply (auto simp del: Write.simps
        split: prod.splits outcome.splits option.splits ioerr.splits if_splits
        dest: Read_pending_le)
     apply (metis Read_pending_le order_trans)+
    done
qed

text \<open>
  What a session does, in order: the dial, the log lines of the code, each chunk the
  session loop reads and inspects (\<open>Request\<close>), its forwarding, the join of the two
  relay goroutines, and the deferred closes.
\<close>

datatype event =
    Dial
  | Log logline
  | Request string
  | Forwarded
  | Joined
  | CloseUpstream
  | CloseClient

text \<open>The goroutine returns, blocks for ever, or panics (which ends the process).\<close>

datatype exit = Returned | Hung | Panicked panic

text \<open>
  The \<^verbatim>\<open>for\<close> loop of \<^verbatim>\<open>handleProxyConnection\<close>. The two goroutines of a cycle share
  no half of a connection: the response relay reads the upstream reader and writes the
  client writer, the passthrough reads the client reader and writes the upstream
  writer. Each therefore runs on its own halves, and the loop goes on when both have
  returned (\<^verbatim>\<open><-done1; <-done2\<close>); if either blocks for ever, so does the session.
\<close>

function sessionLoop :: "(nat \<Rightarrow> nat) \<Rightarrow> conn \<Rightarrow> conn \<Rightarrow> exit \<times> event list \<times> conn \<times> conn" where
  "sessionLoop caseTable clientConn upstreamConn =
     (case Read 4096 (rd clientConn) of
        (Blocked, cr) \<Rightarrow> (Hung, [], clientConn\<lparr>rd := cr\<rparr>, upstreamConn)
      | (Returns (buffer, Some err), cr) \<Rightarrow>
          (Returned, (if err \<noteq> EOF then [Log ErrorReadingFromClient] else []),
           clientConn\<lparr>rd := cr\<rparr>, upstreamConn)
      | (Returns (buffer, None), cr) \<Rightarrow>
          if buffer = [] then (Returned, [], clientConn\<lparr>rd := cr\<rparr>, upstreamConn)
          else
            (case parseHTTPHeaders buffer of
               Inl p \<Rightarrow> (Panicked p, [Request buffer], clientConn\<lparr>rd := cr\<rparr>, upstreamConn)
             | Inr (version, connectionHeader) \<Rightarrow>
                 (case Write buffer (wr upstreamConn) of
                    ((n, Some err), uw) \<Rightarrow>
                      (Returned, [Request buffer, Log ErrorWritingToUpstream],
                       clientConn\<lparr>rd := cr\<rparr>, upstreamConn\<lparr>wr := uw\<rparr>)
                  | ((n, None), uw) \<Rightarrow>
                      (case proxyData (rd upstreamConn) (wr clientConn) ''UPSTREAM -> CLIENT'' of
                         (done1, ur, cw) \<Rightarrow>
                      (case proxyData cr uw ''CLIENT -> UPSTREAM'' of
                         (done2, cr2, uw2) \<Rightarrow>
                      (case (done1, done2) of
                         (Returns log1, Returns log2) \<Rightarrow>
                           if shouldKeepAlive caseTable version connectionHeader
                           then
                             (case sessionLoop caseTable \<lparr>rd = cr2, wr = cw\<rparr> \<lparr>rd = ur, wr = uw2\<rparr> of
                                (x, evs, c, u) \<Rightarrow>
                                  (x, [Request buffer, Forwarded] @ map Log (log1 @ log2)
                                        @ [Joined, Log ConnectionKeptAlive] @ evs, c, u))
                           else
                             (Returned, [Request buffer, Forwarded] @ map Log (log1 @ log2)
                                          @ [Joined, Log ConnectionClosing],
                              \<lparr>rd = cr2, wr = cw\<rparr>, \<lparr>rd = ur, wr = uw2\<rparr>)
                       | (Returns log1, Blocked) \<Rightarrow>
                           (Hung, [Request buffer, Forwarded] @ map Log log1,
                            \<lparr>rd = cr2, wr = cw\<rparr>, \<lparr>rd = ur, wr = uw2\<rparr>)
                       | (Blocked, Returns log2) \<Rightarrow>
                           (Hung, [Request buffer, Forwarded] @ map Log log2,
                            \<lparr>rd = cr2, wr = cw\<rparr>, \<lparr>rd = ur, wr = uw2\<rparr>)
                       | (Blocked, Blocked) \<Rightarrow>
                           (Hung, [Request buffer, Forwarded],
                            \<lparr>rd = cr2, wr = cw\<rparr>, \<lparr>rd = ur, wr = uw2\<rparr>)))))))"
  by pat_completeness auto
termination
proof (relation "measure (\<lambda>(caseTable, clientConn, upstreamConn). pending (rd clientConn))")
  show "wf (measure (\<lambda>(caseTable, clientConn, upstreamConn). pending (rd clientConn)))"
    by simp
next
  fix caseTable :: "nat \<Rightarrow> nat" and clientConn upstreamConn :: conn
    and cr cr2 :: reader and buffer :: string and uw uw2 :: writer
    and r1 :: "(string \<times> ioerr option) outcome \<times> reader"
    and r2 :: "logline list outcome \<times> reader \<times> writer"
    and done2 :: "logline list outcome" and rest2 :: "reader \<times> writer"
    and x :: "(string \<times> ioerr option) outcome" and xa :: "string \<times> ioerr option"
    and y :: "ioerr option"
  assume "(x, cr) = Read 4096 (rd clientConn)" "x = Returns xa" "(buffer, y) = xa" "y = None"
    and "(done2, rest2) = proxyData cr uw ''CLIENT -> UPSTREAM''" "(cr2, uw2) = rest2"
  then have "Read 4096 (rd clientConn) = (Returns (buffer, None), cr)"
    and "passthrough cr uw = (done2, cr2, uw2)"
    by (simp_all add: proxyData_def)
  then have "pending cr2 < pending (rd clientConn)"
    using Read_pending passthrough_pending by (meson le_less_trans zero_less_numeral)
  then show "((caseTable, \<lparr>rd = cr2, wr = cw\<rparr>, \<lparr>rd = ur, wr = uw2\<rparr>),
              (caseTable, clientConn, upstreamConn))
             \<in> measure (\<lambda>(caseTable, clientConn, upstreamConn). pending (rd clientConn))"
    for cw ur
    by simp
qed

text \<open>
  \<^verbatim>\<open>handleProxyConnection\<close>. The result of \<^verbatim>\<open>net.Dial\<close> is an argument: \<open>None\<close> when
  the dial fails. The deferred closes run when the function returns and when it
  panics, the upstream's first.
\<close>

definition handleProxyConnection ::
  "(nat \<Rightarrow> nat) \<Rightarrow> conn option \<Rightarrow> conn \<Rightarrow> exit \<times> event list \<times> conn \<times> conn option" where
  "handleProxyConnection caseTable dialed clientConn =
     (case dialed of
        None \<Rightarrow> (Returned, [Log ErrorConnectingToUpstream, CloseClient], clientConn, None)
      | Some upstreamConn \<Rightarrow>
          (case sessionLoop caseTable clientConn upstreamConn of
             (Hung, evs, c, u) \<Rightarrow> (Hung, Dial # evs, c, Some u)
           | (x, evs, c, u) \<Rightarrow> (x, Dial # evs @ [CloseUpstream, CloseClient], c, Some u)))"

text \<open>The events of the session loop itself: everything but the dial and the two
  closes.\<close>

fun inLoop :: "event \<Rightarrow> bool" where
  "inLoop Dial = False"
| "inLoop CloseUpstream = False"
| "inLoop CloseClient = False"
| "inLoop ev = True"

section \<open>What a script delivers\<close>

text \<open>
  The bytes a reader hands out before it stops, and how it stops: at an error (clean
  end-of-stream is \<open>EOF\<close>) or never (\<open>None\<close>: it stalls). Bytes that come with the
  error are counted.
\<close>

fun streamBytes :: "reader \<Rightarrow> string" where
  "streamBytes [] = []"
| "streamBytes (Stall # evs) = []"
| "streamBytes (Deliver bs None # evs) = bs @ streamBytes evs"
| "streamBytes (Deliver bs (Some e) # evs) = bs"

fun streamEnd :: "reader \<Rightarrow> ioerr option" where
  "streamEnd [] = Some EOF"
| "streamEnd (Stall # evs) = None"
| "streamEnd (Deliver bs None # evs) = streamEnd evs"
| "streamEnd (Deliver bs (Some e) # evs) = Some e"

text \<open>A source that delivers the given chunks, one per arrival, and then ends
  cleanly: a partitioning of \<open>concat chunks\<close>.\<close>

definition chunked :: "string list \<Rightarrow> reader" where
  "chunked chunks = map (\<lambda>c. Deliver c None) chunks"

text \<open>A destination none of whose writes reports an error (it may still take fewer
  bytes than offered).\<close>

fun failing :: "wr_event \<Rightarrow> bool" where
  "failing (Accept k e) = (e \<noteq> None)"

definition neverFails :: "writer \<Rightarrow> bool" where
  "neverFails w = list_all (\<lambda>ev. \<not> failing ev) (writes w)"

declare Write.simps [simp del]

text \<open>
  The bytes the header scan accumulates if it never stops at a terminator. The scan
  reads one byte at a time and drops what comes with an error: of the bytes that
  arrive together with an error, the last one is returned with the error and is lost,
  the ones before it are read without error.
\<close>

fun scanned :: "reader \<Rightarrow> string" where
  "scanned [] = []"
| "scanned (Stall # evs) = []"
| "scanned (Deliver bs None # evs) = bs @ scanned evs"
| "scanned (Deliver bs (Some e) # evs) = butlast bs"

declare sessionLoop.simps [simp del]

subsection \<open>Example traffic and the count of cycles\<close>

text \<open>An HTTP/1.1 request without a Connection header, one that carries
  \<^verbatim>\<open>Connection: close\<close>, and a response.\<close>

definition plainRequest :: string where
  "plainRequest = ''GET / HTTP/1.1'' @ CRLFCRLF"

definition closeRequest :: string where
  "closeRequest = ''GET / HTTP/1.1'' @ CRLF @ ''Connection: close'' @ CRLFCRLF"

definition exampleResponse :: string where
  "exampleResponse = ''HTTP/1.1 200 OK'' @ CRLFCRLF @ ''ok''"

text \<open>A cycle begins when the session loop has read a chunk and inspects it: the
  cycles of a session are the \<open>Request\<close> events of its trace.\<close>

fun isRequest :: "event \<Rightarrow> bool" where
  "isRequest (Request chunk) = True"
| "isRequest ev = False"

definition cycles :: "event list \<Rightarrow> nat" where
  "cycles evs = length (filter isRequest evs)"

section \<open>Properties of the request inspection\<close>

lemma ToLower_keep_alive: "ToLower t ''keep-alive'' = ''keep-alive''"
  by (simp add: ToLower_def lowerASCII_def byte_def)

lemma ToLower_close: "ToLower t ''close'' = ''close''"
  by (simp add: ToLower_def lowerASCII_def byte_def)

text \<open>On ASCII strings, equality up to case is equality of the strings with the
  letters A to Z replaced by a to z, whatever the case table.\<close>

lemma equalFold_ASCII:
  "list_all (\<lambda>c. byte c < 0x80) a \<Longrightarrow> list_all (\<lambda>c. byte c < 0x80) b \<Longrightarrow>
   equalFold t a b \<longleftrightarrow> map lowerASCII a = map lowerASCII b"
  by (simp add: equalFold_def ToLower_def)

lemma trimStop_graphic:
  "s \<noteq> [] \<Longrightarrow> byte (last s) < 0x80 \<Longrightarrow> \<not> asciiSpace (last s) \<Longrightarrow> trimStop s = s"
  by (subst trimStop.simps) simp

lemma TrimSpace_graphic:
  "list_all (\<lambda>c. byte c < 0x80 \<and> \<not> asciiSpace c) s \<Longrightarrow> TrimSpace s = s"
proof (cases s)
  case Nil
  then show ?thesis by simp
next
  case (Cons c cs)
  assume g: "list_all (\<lambda>c. byte c < 0x80 \<and> \<not> asciiSpace c) s"
  have "last s \<in> set s" using Cons by simp
  with g have "byte (last s) < 0x80" "\<not> asciiSpace (last s)"
    by (auto simp: list_all_iff)
  then have "trimStop s = s" using Cons by (intro trimStop_graphic) simp_all
  moreover have "byte c < 0x80" "\<not> asciiSpace c" using g Cons by simp_all
  ultimately show ?thesis using Cons by simp
qed

lemma connectionOf_first:
  "list_all (\<lambda>l. \<not> HasPrefix l ''Connection:'') pre \<Longrightarrow>
   connectionOf (pre @ rest) = connectionOf rest"
  by (induction pre) simp_all

text \<open>
  Claim C1, as stated, fails: the decider trims the version too, so a version that is
  not \<^verbatim>\<open>1.1\<close> but trims to it (here \<^verbatim>\<open>1.1\<close> followed by a space), with no Connection
  value, continues where the table terminates.
\<close>

theorem shouldKeepAlive_padded_version_counterexample:
  "shouldKeepAlive noCaseTable ''1.1 '' [] \<noteq> decisionTable noCaseTable ''1.1 '' []"
  by (simp add: shouldKeepAlive_def decisionTable_def ToLower_def asciiSpace_def byte_def)

text \<open>
  Claim C1, amended: for all input strings the keep-alive decider is the decision
  table applied to the white-space-trimmed version and the Connection value (which the
  table trims and compares up to case).
\<close>

theorem shouldKeepAlive_table_trimmed_version:
  "shouldKeepAlive t version conn = decisionTable t (TrimSpace version) conn"
  by (simp add: shouldKeepAlive_def decisionTable_def equalFold_def ToLower_keep_alive
      ToLower_close Let_def)

lemma TrimLeftFunc_suffix: "suffix (TrimLeftFunc f s) s"
proof (induction f s rule: TrimLeftFunc.induct)
  case (1 f s)
  show ?case
  proof (cases "s \<noteq> [] \<and> f (fst (DecodeRune s))")
    case True
    then have "TrimLeftFunc f s = TrimLeftFunc f (drop (snd (DecodeRune s)) s)"
      by (subst TrimLeftFunc.simps) simp
    moreover have "suffix (TrimLeftFunc f (drop (snd (DecodeRune s)) s)) (drop (snd (DecodeRune s)) s)"
      using "1.IH" True by simp
    ultimately show ?thesis
      by (metis suffix_drop suffix_order.trans)
  next
    case False
    then show ?thesis by (subst TrimLeftFunc.simps) auto
  qed
qed

lemma TrimRightFunc_prefix: "prefix (TrimRightFunc f s) s"
proof (induction f s rule: TrimRightFunc.induct)
  case (1 f s)
  show ?case
  proof (cases "s \<noteq> [] \<and> f (fst (DecodeLastRune s))")
    case True
    then have "TrimRightFunc f s = TrimRightFunc f (take (length s - snd (DecodeLastRune s)) s)"
      by (subst TrimRightFunc.simps) simp
    moreover have "prefix (TrimRightFunc f (take (length s - snd (DecodeLastRune s)) s))
        (take (length s - snd (DecodeLastRune s)) s)"
      using "1.IH" True by simp
    ultimately show ?thesis
      by (metis take_is_prefix prefix_order.trans)
  next
    case False
    then show ?thesis by (subst TrimRightFunc.simps) auto
  qed
qed

lemma trimStop_prefix: "prefix (trimStop s) s"
proof (induction s rule: trimStop.induct)
  case (1 s)
  show ?case
  proof (cases "s = []")
    case True
    then show ?thesis by (subst trimStop.simps) simp
  next
    case False
    show ?thesis
    proof (cases "0x80 \<le> byte (last s)")
      case True
      with False show ?thesis by (subst trimStop.simps) (simp add: TrimRightFunc_prefix)
    next
      case hi: False
      show ?thesis
      proof (cases "asciiSpace (last s)")
        case True
        have "prefix (trimStop (butlast s)) (butlast s)" using "1.IH" False hi True by simp
        moreover have "prefix (butlast s) s" by (simp add: prefixeq_butlast)
        ultimately have "prefix (trimStop (butlast s)) s" by (rule prefix_order.trans)
        with False hi True show ?thesis by (subst trimStop.simps) simp
      next
        case sp: False
        with False hi show ?thesis by (subst trimStop.simps) simp
      qed
    qed
  qed
qed

lemma TrimSpace_sublist: "sublist (TrimSpace s) s"
proof (induction s)
  case Nil
  then show ?case by simp
next
  case (Cons c cs)
  have a: "sublist (TrimFunc IsSpace (c # cs)) (c # cs)"
    unfolding TrimFunc_def
    by (meson TrimLeftFunc_suffix TrimRightFunc_prefix prefix_imp_sublist suffix_imp_sublist
        sublist_order.order_trans)
  have b: "sublist (trimStop (c # cs)) (c # cs)"
    by (simp add: trimStop_prefix prefix_imp_sublist del: trimStop.simps)
  have c: "sublist (TrimSpace cs) (c # cs)"
    using Cons.IH by (simp add: sublist_Cons_right)
  from a b c show ?case by (simp del: trimStop.simps)
qed

lemma TrimSpace_same_length: "length (TrimSpace s) = length s \<Longrightarrow> TrimSpace s = s"
proof -
  assume l: "length (TrimSpace s) = length s"
  from TrimSpace_sublist [of s] obtain a b where "s = a @ TrimSpace s @ b"
    by (auto simp: sublist_def)
  then have "length s = length a + length (TrimSpace s) + length b"
    by (metis length_append add.assoc)
  with l have "a = []" "b = []" by simp_all
  with \<open>s = a @ TrimSpace s @ b\<close> show ?thesis by simp
qed

lemma versionOf_length: "versionOf request = [] \<or> length (versionOf request) = 3"
  by (auto simp: versionOf_def split: option.splits)

lemma TrimSpace_version:
  assumes "v = [] \<or> length v = 3"
  shows "TrimSpace v = ''1.0'' \<longleftrightarrow> v = ''1.0''"
    and "TrimSpace v = ''1.1'' \<longleftrightarrow> v = ''1.1''"
proof -
  have *: "TrimSpace v = x \<Longrightarrow> length x = 3 \<Longrightarrow> v = x" for x
  proof -
    assume t: "TrimSpace v = x" and x: "length x = 3"
    with assms have "length v = 3" by auto
    with t x have "length (TrimSpace v) = length v" by simp
    then have "TrimSpace v = v" by (rule TrimSpace_same_length)
    with t show "v = x" by simp
  qed
  have "TrimSpace ''1.0'' = ''1.0''" "TrimSpace ''1.1'' = ''1.1''"
    by (simp_all add: asciiSpace_def byte_def)
  with * [of "''1.0''"] * [of "''1.1''"]
  show "TrimSpace v = ''1.0'' \<longleftrightarrow> v = ''1.0''"
    and "TrimSpace v = ''1.1'' \<longleftrightarrow> v = ''1.1''"
    by auto
qed

text \<open>
  On every pair that \<^verbatim>\<open>parseHTTPHeaders\<close> can return the version is empty or three
  bytes long, trimming it cannot turn it into \<^verbatim>\<open>1.0\<close> or \<^verbatim>\<open>1.1\<close>, and the decider is
  the table of the specification as it stands.
\<close>

lemma shouldKeepAlive_table_on_extracted_pairs:
  assumes "parseHTTPHeaders request = Inr (version, conn)"
  shows "shouldKeepAlive t version conn = decisionTable t version conn"
proof -
  from assms have "version = versionOf request"
    by (auto simp: parseHTTPHeaders_def split: sum.splits)
  with versionOf_length [of request] have "version = [] \<or> length version = 3" by simp
  note v = TrimSpace_version [OF this]
  show ?thesis
    unfolding shouldKeepAlive_def decisionTable_def equalFold_def Let_def v
      ToLower_keep_alive ToLower_close
    by auto
qed

text \<open>
  Claim C8 fails on the code: a request whose Connection line is exactly the 11 bytes
  \<^verbatim>\<open>Connection:\<close> matches the prefix test, and the slice from offset 12 of an 11-byte
  line panics (slice bounds out of range [12:11]); no pair is returned.
\<close>

theorem parseHTTPHeaders_bare_Connection_panics:
  "parseHTTPHeaders (''GET / HTTP/1.1'' @ CRLF @ ''Connection:'' @ CRLF @ CRLF)
     = Inl (SliceBoundsOutOfRange 12 11)"
  by (simp add: parseHTTPHeaders_def Split_def CRLF_def CR_def LF_def HasPrefix_def)

text \<open>
  Claim C10: when the first line of the chunk that starts with \<^verbatim>\<open>Connection:\<close> carries
  a non-empty value \<open>v\<close> right after the colon, and \<open>v\<close> has no white space (ASCII
  bytes, none of them a space), the extraction returns \<open>v\<close> without its first byte;
  so an HTTP/1.1 request with the line \<^verbatim>\<open>Connection:close\<close> yields \<^verbatim>\<open>lose\<close> and is kept
  alive.
\<close>

theorem parseHTTPHeaders_no_space_drops_byte:
  assumes lines: "Split request CRLF = pre @ (''Connection:'' @ v) # post"
    and first: "list_all (\<lambda>l. \<not> HasPrefix l ''Connection:'') pre"
    and ne: "v \<noteq> []"
    and nospace: "list_all (\<lambda>c. byte c < 0x80 \<and> \<not> asciiSpace c) v"
  shows "parseHTTPHeaders request = Inr (versionOf request, tl v) \<and>
         (versionOf request = ''1.1'' \<and> v = ''close'' \<longrightarrow>
            (case parseHTTPHeaders request of
               Inr (version, connectionHeader) \<Rightarrow> shouldKeepAlive t version connectionHeader
             | Inl p \<Rightarrow> False))"
proof -
  have "list_all (\<lambda>c. byte c < 0x80 \<and> \<not> asciiSpace c) (tl v)"
    using nospace ne by (cases v) simp_all
  then have trim: "TrimSpace (tl v) = tl v" by (rule TrimSpace_graphic)
  have "connectionOf (Split request CRLF) = connectionOf ((''Connection:'' @ v) # post)"
    unfolding lines using first by (rule connectionOf_first)
  also have "\<dots> = Inr (tl v)"
    using ne trim by (cases v) (simp_all add: HasPrefix_def)
  finally have p: "parseHTTPHeaders request = Inr (versionOf request, tl v)"
    by (simp add: parseHTTPHeaders_def)
  have "shouldKeepAlive t ''1.1'' ''lose''"
    by (simp add: shouldKeepAlive_def ToLower_def asciiSpace_def byte_def lowerASCII_def)
  with p show ?thesis by auto
qed

theorem parseHTTPHeaders_no_space_drops_byte_witness:
  "parseHTTPHeaders (''GET / HTTP/1.1'' @ CRLF @ ''Connection:close'' @ CRLF @ CRLF)
     = Inr (''1.1'', ''lose'')
   \<and> shouldKeepAlive noCaseTable ''1.1'' ''lose''"
proof -
  let ?req = "''GET / HTTP/1.1'' @ CRLF @ ''Connection:close'' @ CRLF @ CRLF"
  have 1: "Split ?req CRLF = [''GET / HTTP/1.1''] @ (''Connection:'' @ ''close'') # [[], []]"
    by (simp add: Split_def CRLF_def CR_def LF_def)
  have 2: "list_all (\<lambda>l. \<not> HasPrefix l ''Connection:'') [''GET / HTTP/1.1'']"
    by (simp add: HasPrefix_def)
  have 3: "''close'' \<noteq> []" by simp
  have 4: "list_all (\<lambda>c. byte c < 0x80 \<and> \<not> asciiSpace c) ''close''"
    by (simp add: asciiSpace_def byte_def)
  have 5: "versionOf ?req = ''1.1''"
    by (simp add: versionOf_def CRLF_def CR_def LF_def)
  note T = parseHTTPHeaders_no_space_drops_byte [OF 1 2 3 4, of noCaseTable]
  from T have a: "parseHTTPHeaders ?req = Inr (versionOf ?req, tl ''close'')"
    by (rule conjunct1)
  from T 5 have "case parseHTTPHeaders ?req of
      Inr (version, connectionHeader) \<Rightarrow> shouldKeepAlive noCaseTable version connectionHeader
    | Inl p \<Rightarrow> False"
    by blast
  then have "shouldKeepAlive noCaseTable ''1.1'' ''lose''"
    unfolding a 5 by simp
  with a 5 show ?thesis by simp
qed

section \<open>Properties of the copy loops\<close>

lemma Read_Returns_stream:
  "Read k src = (Returns (chunk, err), src') \<Longrightarrow>
   (case err of
      None \<Rightarrow> streamBytes src = chunk @ streamBytes src' \<and> streamEnd src = streamEnd src'
    | Some e \<Rightarrow> streamBytes src = chunk \<and> streamEnd src = Some e)"
proof (induction k src rule: Read.induct)
  case (3 k bs e evs)
  then show ?case by (cases e) (auto split: if_splits)
qed auto

lemma Read_Blocked_stream:
  "Read k src = (Blocked, src') \<Longrightarrow> streamBytes src = [] \<and> streamEnd src = None"
  by (induction k src rule: Read.induct) (auto split: if_splits)

lemma Write_effect:
  "Write p dst = ((w, e), dst') \<Longrightarrow>
   w \<le> length p \<and> sent dst' = sent dst @ take w p \<and> suffix (writes dst') (writes dst) \<and>
   (e = None \<or> (\<exists>k. Accept k e \<in> set (writes dst)))"
  by (auto simp: Write.simps suffix_def min_def split: list.splits wr_event.splits)

lemma flushRest_effect:
  "flushRest chunk offset dst = (r, dst') \<Longrightarrow> offset \<le> length chunk \<Longrightarrow>
   suffix (writes dst') (writes dst) \<and>
   (case r of
      None \<Rightarrow> sent dst' = sent dst @ drop offset chunk
    | Some e \<Rightarrow> \<exists>k. Accept k (Some e) \<in> set (writes dst))"
proof (induction chunk offset dst arbitrary: r dst' rule: flushRest.induct)
  case (1 chunk offset dst)
  show ?case
  proof (cases "offset < length chunk")
    case False
    with "1.prems" show ?thesis by (simp add: flushRest.simps [of chunk offset dst])
  next
    case True
    obtain w e dst1 where W: "Write (drop offset chunk) dst = ((w, e), dst1)"
      by (metis prod.exhaust)
    note We = Write_effect [OF W]
    show ?thesis
    proof (cases e)
      case (Some werr)
      with "1.prems" True W We show ?thesis
        by (auto simp: flushRest.simps [of chunk offset dst])
    next
      case None
      with "1.prems" True W have rec: "flushRest chunk (offset + w) dst1 = (r, dst')"
        by (simp add: flushRest.simps [of chunk offset dst])
      have le: "offset + w \<le> length chunk" using We True by (simp add: le_diff_conv2 add.commute)
      have IH: "suffix (writes dst') (writes dst1) \<and>
        (case r of None \<Rightarrow> sent dst' = sent dst1 @ drop (offset + w) chunk
         | Some e \<Rightarrow> \<exists>k. Accept k (Some e) \<in> set (writes dst1))"
        using "1.IH" [OF True W [symmetric] refl None rec le] by simp
      have sub: "set (writes dst1) \<subseteq> set (writes dst)"
        using We by (auto simp: suffix_def)
      have "take w (drop offset chunk) @ drop (offset + w) chunk = drop offset chunk"
        by (metis add.commute append_take_drop_id drop_drop)
      with IH We sub show ?thesis
        by (auto split: option.splits intro: suffix_order.trans)
    qed
  qed
qed

lemma writeChunk_effect:
  "writeChunk chunk dst = (r, dst') \<Longrightarrow>
   suffix (writes dst') (writes dst) \<and>
   (case r of
      None \<Rightarrow> sent dst' = sent dst @ chunk
    | Some e \<Rightarrow> \<exists>k. Accept k (Some e) \<in> set (writes dst))"
proof -
  assume a: "writeChunk chunk dst = (r, dst')"
  obtain w e dst1 where W: "Write chunk dst = ((w, e), dst1)"
    by (metis prod.exhaust)
  note We = Write_effect [OF W]
  show ?thesis
  proof (cases e)
    case (Some werr)
    with a W We show ?thesis by (auto simp: writeChunk_def)
  next
    case None
    show ?thesis
    proof (cases "w < length chunk")
      case False
      with a W We None show ?thesis by (auto simp: writeChunk_def)
    next
      case True
      with a W None have f: "flushRest chunk w dst1 = (r, dst')"
        by (simp add: writeChunk_def)
      have sub: "set (writes dst1) \<subseteq> set (writes dst)"
        using We by (auto simp: suffix_def)
      from flushRest_effect [OF f] True We sub show ?thesis
        by (auto split: option.splits intro: suffix_order.trans)
    qed
  qed
qed

lemma neverFails_suffix:
  "neverFails dst \<Longrightarrow> suffix (writes dst') (writes dst) \<Longrightarrow> neverFails dst'"
  by (auto simp: neverFails_def suffix_def)

lemma writeChunk_neverFails:
  assumes "neverFails dst" and "writeChunk chunk dst = (r, dst')"
  shows "r = None \<and> sent dst' = sent dst @ chunk \<and> neverFails dst'"
proof -
  note E = writeChunk_effect [OF assms(2)]
  have "r = None"
  proof (cases r)
    case (Some e)
    with E obtain k where "Accept k (Some e) \<in> set (writes dst)" by auto
    with assms(1) show ?thesis by (auto simp: neverFails_def list_all_iff)
  qed simp
  with E assms(1) show ?thesis by (auto intro: neverFails_suffix)
qed

lemma copyData_stream:
  "neverFails dst \<Longrightarrow> copyData dst src = (res, dst', src') \<Longrightarrow>
   sent dst' = sent dst @ streamBytes src \<and> neverFails dst' \<and>
   res = (case streamEnd src of
            None \<Rightarrow> Blocked
          | Some EOF \<Rightarrow> Returns None
          | Some Failure \<Rightarrow> Returns (Some (ReadError Failure)))"
proof (induction dst src arbitrary: res dst' src' rule: copyData.induct)
  case (1 dst src)
  obtain rr src1 where R: "Read (32 * 1024) src = (rr, src1)" by (cases "Read (32 * 1024) src")
  show ?case
  proof (cases rr)
    case Blocked
    with "1.prems" R Read_Blocked_stream [of "32 * 1024" src src1] show ?thesis
      by (simp add: copyData.simps [of dst src])
  next
    case (Returns cr)
    obtain chunk readErr where cr: "cr = (chunk, readErr)" by (cases cr)
    obtain werr dst1 where
      W: "(if chunk \<noteq> [] then writeChunk chunk dst else (None, dst)) = (werr, dst1)"
      by (metis prod.exhaust)
    have W1: "werr = None \<and> sent dst1 = sent dst @ chunk \<and> neverFails dst1"
      using W "1.prems"(1) writeChunk_neverFails [of dst chunk werr dst1]
      by (auto split: if_splits)
    note S = Read_Returns_stream [OF R [unfolded Returns cr]]
    show ?thesis
    proof (cases readErr)
      case None
      with "1.prems" R Returns cr W W1 have rec: "copyData dst1 src1 = (res, dst', src')"
        by (simp add: copyData.simps [of dst src])
      have "sent dst' = sent dst1 @ streamBytes src1 \<and> neverFails dst' \<and>
        res = (case streamEnd src1 of None \<Rightarrow> Blocked | Some EOF \<Rightarrow> Returns None
               | Some Failure \<Rightarrow> Returns (Some (ReadError Failure)))"
        using "1.IH" [OF R [symmetric] Returns cr [symmetric] W [symmetric] _ None _ rec] W1
        by simp
      with S W1 None show ?thesis by simp
    next
      case (Some e)
      with "1.prems" R Returns cr W W1 S show ?thesis
        by (cases e) (auto simp: copyData.simps [of dst src])
    qed
  qed
qed

lemma streamBytes_chunked: "streamBytes (chunked chunks) = concat chunks"
  by (induction chunks) (simp_all add: chunked_def)

lemma streamEnd_chunked: "streamEnd (chunked chunks) = Some EOF"
  by (induction chunks) (simp_all add: chunked_def)

text \<open>
  Claim C5: into a destination whose writes do not fail, \<^verbatim>\<open>copyData\<close> delivers exactly
  the bytes of the source, in order, whatever the partitioning into read chunks, and
  returns success (\<open>nil\<close>) exactly when the source reaches its clean end-of-stream;
  in particular for every list of chunks delivered one per arrival.
\<close>

theorem copyData_round_trip:
  assumes "neverFails dst"
  shows "sent (fst (snd (copyData dst src))) = sent dst @ streamBytes src \<and>
         (fst (copyData dst src) = Returns None \<longleftrightarrow> streamEnd src = Some EOF) \<and>
         sent (fst (snd (copyData dst (chunked chunks)))) = sent dst @ concat chunks \<and>
         fst (copyData dst (chunked chunks)) = Returns None"
proof -
  have gen: "sent (fst (snd (copyData dst s))) = sent dst @ streamBytes s \<and>
      (fst (copyData dst s) = Returns None \<longleftrightarrow> streamEnd s = Some EOF)" for s
  proof -
    obtain res dst' src' where c: "copyData dst s = (res, dst', src')"
      by (metis prod.exhaust)
    from copyData_stream [OF assms c] show ?thesis
      unfolding c by (auto split: option.splits ioerr.splits)
  qed
  from gen [of src] gen [of "chunked chunks"] show ?thesis
    by (simp add: streamBytes_chunked streamEnd_chunked)
qed

theorem copyData_round_trip_witness:
  "neverFails \<lparr>writes = [Accept 2 None], sent = []\<rparr> \<and>
   sent (fst (snd (copyData \<lparr>writes = [Accept 2 None], sent = []\<rparr>
                     (chunked [''h'', ''e'', ''l'', ''l'', ''o''])))) = ''hello'' \<and>
   fst (copyData \<lparr>writes = [Accept 2 None], sent = []\<rparr>
          (chunked [''h'', ''e'', ''l'', ''l'', ''o''])) = Returns None"
proof -
  have n: "neverFails \<lparr>writes = [Accept 2 None], sent = []\<rparr>"
    by (simp add: neverFails_def)
  from copyData_round_trip [OF n, of "[]" "[''h'', ''e'', ''l'', ''l'', ''o'']"] n
  show ?thesis by simp
qed

text \<open>
  Claim C6, as stated, fails for the 4096-byte client-to-upstream passthrough: when the
  destination takes 2 of the 5 bytes offered and reports no error, the loop does not
  write the other 3 again; it reads on, and ends without an error.
\<close>

theorem passthrough_short_write_counterexample:
  "passthrough [Deliver ''hello'' None] \<lparr>writes = [Accept 2 None], sent = []\<rparr>
     = (Returns [], [], \<lparr>writes = [], sent = ''he''\<rparr>)"
  by (simp add: passthrough.simps Write.simps)

text \<open>
  Claim C6, amended: only the write step of \<^verbatim>\<open>copyData\<close> (the 32768-byte body-tail
  relay) retries after a short write: it ends either with the whole chunk taken by the
  destination or with an error that a write reported. The 4096-byte passthrough does
  not treat a short write as an error either, but issues one write per chunk and
  reads on: the bytes that were not taken are not written again.
\<close>

theorem short_write_retry_only_in_copyData:
  "(writeChunk chunk dst = (r, dst') \<longrightarrow>
      (case r of
         None \<Rightarrow> sent dst' = sent dst @ chunk
       | Some e \<Rightarrow> \<exists>k. Accept k (Some e) \<in> set (writes dst))) \<and>
   (chunk \<noteq> [] \<and> length chunk \<le> 4096 \<longrightarrow>
      passthrough (Deliver chunk None # src) \<lparr>writes = Accept k None # ws, sent = s\<rparr>
        = passthrough src \<lparr>writes = ws, sent = s @ take k chunk\<rparr>)"
proof (intro conjI impI)
  assume "writeChunk chunk dst = (r, dst')"
  from writeChunk_effect [OF this]
  show "case r of None \<Rightarrow> sent dst' = sent dst @ chunk
        | Some e \<Rightarrow> \<exists>k. Accept k (Some e) \<in> set (writes dst)"
    by simp
next
  assume "chunk \<noteq> [] \<and> length chunk \<le> 4096"
  then show "passthrough (Deliver chunk None # src) \<lparr>writes = Accept k None # ws, sent = s\<rparr>
        = passthrough src \<lparr>writes = ws, sent = s @ take k chunk\<rparr>"
    by (subst passthrough.simps) (simp add: Write.simps)
qed

theorem short_write_retry_only_in_copyData_witness:
  "writeChunk ''hello'' \<lparr>writes = [Accept 2 None, Accept 0 None, Accept 1 None], sent = []\<rparr>
     = (None, \<lparr>writes = [], sent = ''hello''\<rparr>) \<and>
   passthrough [Deliver ''hello'' None] \<lparr>writes = [Accept 2 None], sent = []\<rparr>
     = passthrough [] \<lparr>writes = [], sent = ''he''\<rparr>"
proof -
  have w: "writeChunk ''hello''
      \<lparr>writes = [Accept 2 None, Accept 0 None, Accept 1 None], sent = []\<rparr>
     = (None, \<lparr>writes = [], sent = ''hello''\<rparr>)"
    by (simp add: writeChunk_def flushRest.simps Write.simps)
  from short_write_retry_only_in_copyData
    [of "''hello''" "\<lparr>writes = [Accept 2 None, Accept 0 None, Accept 1 None], sent = []\<rparr>"
        None "\<lparr>writes = [], sent = ''hello''\<rparr>" "[]" 2 "[]" "[]"] w
  show ?thesis by simp
qed

section \<open>Properties of the response relay\<close>

subsection \<open>Searching and splitting\<close>

lemma Index_None_iff: "Index s t = None \<longleftrightarrow> \<not> sublist t s"
  by (induction s) (auto simp: sublist_Cons_right)

lemma Contains_iff_sublist: "Contains s t \<longleftrightarrow> sublist t s"
  by (simp add: Contains_def Index_None_iff)

lemma Index_Some_split:
  "Index s t = Some n \<Longrightarrow> s = take n s @ t @ drop (n + length t) s"
proof (induction s arbitrary: n)
  case Nil
  then show ?case by (simp split: if_splits)
next
  case (Cons c cs)
  show ?case
  proof (cases "prefix t (c # cs)")
    case True
    with Cons.prems have "n = 0" by simp
    with True show ?thesis by (auto simp: prefix_def)
  next
    case False
    with Cons.prems obtain m where m: "Index cs t = Some m" "n = Suc m" by auto
    from Cons.IH [OF m(1)] m(2) show ?thesis by simp
  qed
qed

lemma Index_first:
  "t \<noteq> [] \<Longrightarrow> \<not> sublist t (h @ butlast t) \<Longrightarrow> Index (h @ t @ rest) t = Some (length h)"
proof (induction h)
  case Nil
  then show ?case by (cases t) simp_all
next
  case (Cons a h)
  have np: "\<not> prefix t ((a # h) @ t @ rest)"
  proof
    assume p: "prefix t ((a # h) @ t @ rest)"
    have q: "prefix ((a # h) @ butlast t) ((a # h) @ t @ rest)"
      using Cons.prems(1) by (metis append_butlast_last_id prefix_def append.assoc same_prefix_prefix)
    have "length t \<le> length ((a # h) @ butlast t)" by simp
    with p q have "prefix t ((a # h) @ butlast t)" by (rule prefix_length_prefix)
    then have "sublist t ((a # h) @ butlast t)" by (rule prefix_imp_sublist)
    with Cons.prems(2) show False by simp
  qed
  have "\<not> sublist t (h @ butlast t)"
    using Cons.prems(2) by (auto simp: sublist_Cons_right)
  with Cons.IH Cons.prems(1) have "Index (h @ t @ rest) t = Some (length h)" by simp
  with np show ?case by simp
qed

lemma genSplit_not_Nil: "genSplit s sep k \<noteq> []"
  by (cases k) (simp_all split: option.splits)

lemma Join_Cons: "xs \<noteq> [] \<Longrightarrow> Join (x # xs) sep = x @ sep @ Join xs sep"
  by (cases xs) simp_all

lemma Join_snoc: "xs \<noteq> [] \<Longrightarrow> Join (xs @ [y]) sep = Join xs sep @ sep @ y"
  by (induction xs sep rule: Join.induct) simp_all

lemma Join_genSplit: "Join (genSplit s sep k) sep = s"
proof (induction k arbitrary: s)
  case 0
  then show ?case by simp
next
  case (Suc k)
  show ?case
  proof (cases "Index s sep")
    case None
    then show ?thesis by simp
  next
    case (Some m)
    from Index_Some_split [OF Some] Suc.IH [of "drop (m + length sep) s"] Some
    show ?thesis by (simp add: Join_Cons genSplit_not_Nil)
  qed
qed

lemma Join_Split_inject:
  "Join (Split h CRLF @ [line]) CRLF = h @ CRLF @ line"
  by (simp add: Split_def Join_snoc genSplit_not_Nil Join_genSplit)

lemma CRLFCRLF_not_Nil: "CRLFCRLF \<noteq> []"
  by (simp add: CRLFCRLF_def)

lemma SplitN2_terminated:
  assumes "\<not> Contains (h @ butlast CRLFCRLF) CRLFCRLF"
  shows "Index (h @ CRLFCRLF) CRLFCRLF = Some (length h)"
    and "SplitN2 (h @ CRLFCRLF) CRLFCRLF = [h, []]"
proof -
  from assms have "\<not> sublist CRLFCRLF (h @ butlast CRLFCRLF)"
    by (simp add: Contains_iff_sublist)
  from Index_first [OF CRLFCRLF_not_Nil this, of "[]"]
  show i: "Index (h @ CRLFCRLF) CRLFCRLF = Some (length h)" by simp
  have "min 2 (length (h @ CRLFCRLF) + 1) - 1 = Suc 0"
    by (simp add: CRLFCRLF_def)
  then show "SplitN2 (h @ CRLFCRLF) CRLFCRLF = [h, []]"
    using i by (simp add: SplitN2_def)
qed

subsection \<open>The header scan\<close>

lemma Read_length: "Read k src = (Returns (chunk, e), src') \<Longrightarrow> length chunk \<le> k"
  by (induction k src rule: Read.induct) (auto split: if_splits)

lemma Read_scanned:
  "Read k src = (Returns (chunk, None), src') \<Longrightarrow> scanned src = chunk @ scanned src'"
proof (induction k src rule: Read.induct)
  case (3 k bs e evs)
  show ?case
  proof (cases "length bs \<le> k")
    case True
    with 3 show ?thesis by auto
  next
    case False
    then have "butlast bs = take k bs @ butlast (drop k bs)"
      by (metis append_take_drop_id butlast_append drop_eq_Nil not_le_imp_less
          order_less_imp_not_less)
    with 3 False show ?thesis by (cases e) auto
  qed
qed auto

lemma Read_scanned_stop:
  "Read 1 src = (Returns (chunk, Some e), src') \<Longrightarrow> scanned src = []"
  "Read 1 src = (Blocked, src') \<Longrightarrow> scanned src = []"
proof -
  have short: "length bs \<le> Suc 0 \<Longrightarrow> butlast bs = []" for bs :: string
    by (cases bs) auto
  show "Read 1 src = (Returns (chunk, Some e), src') \<Longrightarrow> scanned src = []"
    by (cases src rule: scanned.cases) (auto split: if_splits simp: short)
  show "Read 1 src = (Blocked, src') \<Longrightarrow> scanned src = []"
    by (cases src rule: scanned.cases) (auto split: if_splits)
qed

lemma Contains_append_right: "Contains a t \<Longrightarrow> Contains (a @ b) t"
  by (auto simp: Contains_iff_sublist sublist_append)

lemma Contains_snoc_suffix:
  "\<not> Contains buf t \<Longrightarrow> Contains (buf @ tmp) t \<Longrightarrow> length tmp \<le> 1 \<Longrightarrow>
   suffix t (buf @ tmp) \<and> butlast (buf @ tmp) = buf"
proof -
  assume a: "\<not> Contains buf t" "Contains (buf @ tmp) t" "length tmp \<le> 1"
  then have "tmp \<noteq> []" by auto
  with a(3) obtain c where c: "tmp = [c]" by (cases tmp) auto
  with a(1,2) show ?thesis
    by (auto simp: Contains_iff_sublist sublist_snoc)
qed

lemma readHeader_result:
  "\<not> Contains buf CRLFCRLF \<Longrightarrow> readHeader buf src = (Returns (Inr hb), src') \<Longrightarrow>
   \<exists>d. hb = buf @ d \<and> suffix CRLFCRLF hb \<and> \<not> Contains (butlast hb) CRLFCRLF \<and>
       streamBytes src = d @ streamBytes src' \<and> streamEnd src = streamEnd src'"
proof (induction buf src arbitrary: hb src' rule: readHeader.induct)
  case (1 buf src)
  obtain rr src1 where R: "Read 1 src = (rr, src1)" by (cases "Read 1 src")
  show ?case
  proof (cases rr)
    case Blocked
    with "1.prems" R show ?thesis by (simp add: readHeader.simps [of buf src])
  next
    case (Returns cr)
    obtain tmp err where cr: "cr = (tmp, err)" by (cases cr)
    note R' = R [unfolded Returns cr]
    show ?thesis
    proof (cases err)
      case (Some e)
      with "1.prems" R Returns cr show ?thesis by (simp add: readHeader.simps [of buf src])
    next
      case None
      note S = Read_Returns_stream [OF R', unfolded None, simplified]
      have len: "length tmp \<le> 1" using Read_length [OF R'] .
      show ?thesis
      proof (cases "Contains (buf @ tmp) CRLFCRLF")
        case True
        with "1.prems" R Returns cr None have "hb = buf @ tmp" "src' = src1"
          by (simp_all add: readHeader.simps [of buf src])
        with Contains_snoc_suffix [OF "1.prems"(1) True len] "1.prems"(1) S
        show ?thesis by auto
      next
        case False
        with "1.prems" R Returns cr None
        have rec: "readHeader (buf @ tmp) src1 = (Returns (Inr hb), src')"
          by (simp add: readHeader.simps [of buf src])
        from "1.IH" [OF R [symmetric] Returns cr [symmetric] None False False rec]
        obtain d where "hb = (buf @ tmp) @ d" "suffix CRLFCRLF hb"
          "\<not> Contains (butlast hb) CRLFCRLF" "streamBytes src1 = d @ streamBytes src'"
          "streamEnd src1 = streamEnd src'"
          by blast
        with S show ?thesis by auto
      qed
    qed
  qed
qed

lemma readHeader_progress:
  "\<not> Contains buf CRLFCRLF \<Longrightarrow> Contains (buf @ scanned src) CRLFCRLF \<Longrightarrow>
   \<exists>hb src'. readHeader buf src = (Returns (Inr hb), src')"
proof (induction buf src rule: readHeader.induct)
  case (1 buf src)
  from "1.prems" have ne: "scanned src \<noteq> []" by auto
  obtain rr src1 where R: "Read 1 src = (rr, src1)" by (cases "Read 1 src")
  show ?case
  proof (cases rr)
    case Blocked
    with R Read_scanned_stop(2) ne show ?thesis by blast
  next
    case (Returns cr)
    obtain tmp err where cr: "cr = (tmp, err)" by (cases cr)
    note R' = R [unfolded Returns cr]
    show ?thesis
    proof (cases err)
      case (Some e)
      with R' Read_scanned_stop(1) ne show ?thesis by blast
    next
      case None
      from Read_scanned [OF R' [unfolded None]]
      have ok: "scanned src = tmp @ scanned src1" .
      show ?thesis
      proof (cases "Contains (buf @ tmp) CRLFCRLF")
        case True
        with R Returns cr None show ?thesis by (simp add: readHeader.simps [of buf src])
      next
        case False
        from "1.prems"(2) ok have "Contains ((buf @ tmp) @ scanned src1) CRLFCRLF" by simp
        from "1.IH" [OF R [symmetric] Returns cr [symmetric] None False False this]
        show ?thesis
          using R Returns cr None False by (simp add: readHeader.simps [of buf src])
      qed
    qed
  qed
qed

lemma readHeader_error:
  "\<not> Contains (buf @ scanned src) CRLFCRLF \<Longrightarrow> streamEnd src = Some e \<Longrightarrow>
   \<exists>src'. readHeader buf src = (Returns (Inl e), src')"
proof (induction buf src rule: readHeader.induct)
  case (1 buf src)
  obtain rr src1 where R: "Read 1 src = (rr, src1)" by (cases "Read 1 src")
  show ?case
  proof (cases rr)
    case Blocked
    with R Read_Blocked_stream "1.prems"(2) show ?thesis by fastforce
  next
    case (Returns cr)
    obtain tmp err where cr: "cr = (tmp, err)" by (cases cr)
    note R' = R [unfolded Returns cr]
    show ?thesis
    proof (cases err)
      case (Some e')
      from Read_Returns_stream [OF R', unfolded Some, simplified] "1.prems"(2)
      have "e' = e" by simp
      with R Returns cr Some show ?thesis by (simp add: readHeader.simps [of buf src])
    next
      case None
      note S = Read_Returns_stream [OF R', unfolded None, simplified]
      from "1.prems"(1) Read_scanned [OF R' [unfolded None]]
      have nc: "\<not> Contains ((buf @ tmp) @ scanned src1) CRLFCRLF"
        by simp
      then have False: "\<not> Contains (buf @ tmp) CRLFCRLF"
        using Contains_append_right by blast
      from "1.prems"(2) S have "streamEnd src1 = Some e" by simp
      from "1.IH" [OF R [symmetric] Returns cr [symmetric] None False nc this]
      show ?thesis
        using R Returns cr None False by (simp add: readHeader.simps [of buf src])
    qed
  qed
qed

lemma copyData_errors:
  "copyData dst src = (Returns (Some err), dst', src') \<Longrightarrow>
   (\<exists>e. err = WriteError e) \<or> (\<exists>e. err = ReadError e)"
proof (induction dst src arbitrary: dst' src' rule: copyData.induct)
  case (1 dst src)
  show ?case
    using "1.prems" "1.IH"
    apply (subst (asm) copyData.simps)
    apply (auto split: prod.splits outcome.splits option.splits ioerr.splits if_splits)
    done
qed

lemma terminated_prefix_eq:
  assumes "prefix x y" "suffix t x" "\<not> Contains (butlast y) t"
  shows "x = y"
proof -
  from assms(1) obtain z where z: "y = x @ z" by (auto simp: prefix_def)
  show ?thesis
  proof (cases "z = []")
    case True
    with z show ?thesis by simp
  next
    case False
    then have "butlast y = x @ butlast z" using z by (simp add: butlast_append)
    moreover have "sublist t x" using assms(2) by (rule suffix_imp_sublist)
    ultimately have "Contains (butlast y) t"
      by (simp add: Contains_iff_sublist sublist_append)
    with assms(3) show ?thesis by simp
  qed
qed

lemma terminated_unique:
  assumes "prefix x s" "suffix t x" "\<not> Contains (butlast x) t"
    and "prefix y s" "suffix t y" "\<not> Contains (butlast y) t"
  shows "x = y"
proof -
  from assms(1,4) have "prefix x y \<or> prefix y x" by (rule prefix_same_cases)
  then show ?thesis
  proof
    assume "prefix x y"
    from terminated_prefix_eq [OF this assms(2) assms(6)] show ?thesis .
  next
    assume "prefix y x"
    from terminated_prefix_eq [OF this assms(5) assms(3)] show ?thesis by simp
  qed
qed

lemma readHeader_terminated:
  assumes r: "readHeader [] upstream = (Returns (Inr rawHeaders), upstream')"
  shows "\<exists>h. rawHeaders = h @ CRLFCRLF \<and> \<not> Contains (h @ butlast CRLFCRLF) CRLFCRLF \<and>
             streamBytes upstream = rawHeaders @ streamBytes upstream' \<and>
             streamEnd upstream = streamEnd upstream'"
proof -
  have "\<not> Contains [] CRLFCRLF" by (simp add: Contains_def CRLFCRLF_def)
  from readHeader_result [OF this r]
  have a: "suffix CRLFCRLF rawHeaders" "\<not> Contains (butlast rawHeaders) CRLFCRLF"
    "streamBytes upstream = rawHeaders @ streamBytes upstream'"
    "streamEnd upstream = streamEnd upstream'"
    by auto
  from a(1) obtain h where h: "rawHeaders = h @ CRLFCRLF" by (auto simp: suffix_def)
  then have "butlast rawHeaders = h @ butlast CRLFCRLF"
    by (simp add: butlast_append CRLFCRLF_not_Nil)
  with a h show ?thesis by auto
qed

text \<open>The relay, once the scan has stopped at \<open>h\<close> followed by the terminator.\<close>

lemma relay_after_scan:
  assumes r: "readHeader [] upstream = (Returns (Inr (h @ CRLFCRLF)), upstream')"
    and first: "\<not> Contains (h @ butlast CRLFCRLF) CRLFCRLF"
  shows "proxyResponseWithHeaderInjection upstream client =
     (case Write (h @ CRLF @ ''Foo: Bar'' @ CRLFCRLF) client of
        ((n, Some err), client1) \<Rightarrow> (Returns (Some (HeaderWriteError err)), upstream', client1)
      | ((n, None), client1) \<Rightarrow>
          (case copyData client1 upstream' of
             (res, client3, upstream2) \<Rightarrow> (res, upstream2, client3)))"
  using SplitN2_terminated(2) [OF first]
  by (simp add: proxyResponseWithHeaderInjection_def r Join_Split_inject
      split: prod.splits option.splits)

lemma chunked_append:
  "scanned (chunked chunks @ tail) = concat chunks @ scanned tail"
  "streamBytes (chunked chunks @ tail) = concat chunks @ streamBytes tail"
  "streamEnd (chunked chunks @ tail) = streamEnd tail"
  by (induction chunks) (simp_all add: chunked_def)

lemma relay_injects:
  assumes stream: "concat chunks = h @ CRLFCRLF @ body"
    and first: "\<not> Contains (h @ butlast CRLFCRLF) CRLFCRLF"
    and ok: "writes client = []"
  shows "\<exists>upstream' client'.
           proxyResponseWithHeaderInjection (chunked chunks @ tail) client
             = (case streamEnd tail of
                  None \<Rightarrow> Blocked
                | Some EOF \<Rightarrow> Returns None
                | Some Failure \<Rightarrow> Returns (Some (ReadError Failure)),
                upstream', client') \<and>
           sent client' = sent client @ h @ CRLF @ ''Foo: Bar'' @ CRLFCRLF @ body
                            @ streamBytes tail"
proof -
  let ?up = "chunked chunks @ tail"
  have "Contains ([] @ scanned ?up) CRLFCRLF"
    by (simp add: chunked_append stream Contains_iff_sublist sublist_append)
  moreover have "\<not> Contains [] CRLFCRLF" by (simp add: Contains_def CRLFCRLF_def)
  ultimately obtain hb up1 where r: "readHeader [] ?up = (Returns (Inr hb), up1)"
    using readHeader_progress by blast
  from readHeader_terminated [OF r] obtain h' where
    h': "hb = h' @ CRLFCRLF" "\<not> Contains (h' @ butlast CRLFCRLF) CRLFCRLF"
      "streamBytes ?up = hb @ streamBytes up1" "streamEnd ?up = streamEnd up1"
    by auto
  have s: "streamBytes ?up = (h @ CRLFCRLF) @ body @ streamBytes tail"
    by (simp add: chunked_append stream)
  have "h @ CRLFCRLF = h' @ CRLFCRLF"
  proof (rule terminated_unique [where s = "streamBytes ?up" and t = CRLFCRLF])
    show "prefix (h @ CRLFCRLF) (streamBytes ?up)" unfolding s by simp
    show "prefix (h' @ CRLFCRLF) (streamBytes ?up)" using h'(1,3) by simp
    show "\<not> Contains (butlast (h @ CRLFCRLF)) CRLFCRLF"
      using first by (simp add: butlast_append CRLFCRLF_not_Nil)
    show "\<not> Contains (butlast (h' @ CRLFCRLF)) CRLFCRLF"
      using h'(2) by (simp add: butlast_append CRLFCRLF_not_Nil)
  qed (simp_all add: suffix_def)
  then have hb: "hb = h @ CRLFCRLF" using h'(1) by simp
  with h'(3) s have body: "streamBytes up1 = body @ streamBytes tail" by simp
  have end1: "streamEnd up1 = streamEnd tail" using h'(4) by (simp add: chunked_append)
  let ?c1 = "client\<lparr>sent := sent client @ h @ CRLF @ ''Foo: Bar'' @ CRLFCRLF\<rparr>"
  have w: "Write (h @ CRLF @ ''Foo: Bar'' @ CRLFCRLF) client
             = ((length (h @ CRLF @ ''Foo: Bar'' @ CRLFCRLF), None), ?c1)"
    using ok by (simp add: Write.simps)
  have nf: "neverFails ?c1" using ok by (simp add: neverFails_def)
  obtain res c3 up2 where c: "copyData ?c1 up1 = (res, c3, up2)" by (metis prod.exhaust)
  from copyData_stream [OF nf c] body end1
  have fin: "sent c3 = sent client @ h @ CRLF @ ''Foo: Bar'' @ CRLFCRLF @ body
                         @ streamBytes tail"
    "res = (case streamEnd tail of
              None \<Rightarrow> Blocked
            | Some EOF \<Rightarrow> Returns None
            | Some Failure \<Rightarrow> Returns (Some (ReadError Failure)))"
    by simp_all
  have "proxyResponseWithHeaderInjection ?up client = (res, up2, c3)"
    unfolding relay_after_scan [OF r [unfolded hb] first, of client] w using c by simp
  with fin show ?thesis by simp
qed

text \<open>
  Claim C2: when the upstream delivers, in any partitioning into chunks, the header
  block \<^verbatim>\<open>A: 1\<close> CR LF \<^verbatim>\<open>B: 2\<close> CR LF CR LF followed by any body, and the client
  accepts every write, the client receives exactly \<^verbatim>\<open>A: 1\<close> CR LF \<^verbatim>\<open>B: 2\<close> CR LF
  \<^verbatim>\<open>Foo: Bar\<close> CR LF CR LF and then the body: the fixed line sits right before the
  terminating blank line, and every other byte is forwarded unchanged and in order.
  Whatever the upstream does after these chunks (\<open>tail\<close>) is relayed as more of the
  body, and the relay returns success exactly when the upstream then reaches its clean
  end-of-stream.
\<close>

theorem relay_injects_Foo_Bar:
  assumes "concat chunks = ''A: 1'' @ CRLF @ ''B: 2'' @ CRLFCRLF @ body"
    and "writes client = []"
  shows "\<exists>res upstream' client'.
           proxyResponseWithHeaderInjection (chunked chunks @ tail) client
             = (res, upstream', client') \<and>
           sent client' = sent client @ ''A: 1'' @ CRLF @ ''B: 2'' @ CRLF @ ''Foo: Bar''
                            @ CRLFCRLF @ body @ streamBytes tail \<and>
           (res = Returns None \<longleftrightarrow> streamEnd tail = Some EOF)"
proof -
  have first: "\<not> Contains ((''A: 1'' @ CRLF @ ''B: 2'') @ butlast CRLFCRLF) CRLFCRLF"
    by (simp add: Contains_def CRLF_def CRLFCRLF_def CR_def LF_def)
  from relay_injects [OF _ first assms(2), of chunks body tail] assms(1)
  show ?thesis by (auto split: option.splits ioerr.splits)
qed

theorem relay_injects_Foo_Bar_witness:
  "\<exists>upstream' client'.
     proxyResponseWithHeaderInjection
       (chunked [''A: 1'' @ [CR], [LF] @ ''B: 2'' @ CRLF @ [CR], [LF] @ ''BO'', ''DY''])
       \<lparr>writes = [], sent = []\<rparr>
       = (Returns None, upstream', client') \<and>
     sent client' = ''A: 1'' @ CRLF @ ''B: 2'' @ CRLF @ ''Foo: Bar'' @ CRLFCRLF @ ''BODY''"
proof -
  have 1: "concat [''A: 1'' @ [CR], [LF] @ ''B: 2'' @ CRLF @ [CR], [LF] @ ''BO'', ''DY'']
             = ''A: 1'' @ CRLF @ ''B: 2'' @ CRLFCRLF @ ''BODY''"
    by (simp add: CRLF_def CRLFCRLF_def)
  have 2: "writes \<lparr>writes = [], sent = []\<rparr> = []" by simp
  from relay_injects_Foo_Bar [OF 1 2, of "[]"] show ?thesis by auto
qed

text \<open>
  Claim C4: if the upstream stream ends (at clean end-of-stream or at a read error)
  and the bytes the header scan accumulates until then never contain CR LF CR LF, the
  relay returns the error of the header read and the client is left as it was:
  nothing is written.
\<close>

theorem relay_no_terminator_reports_error:
  assumes "\<not> Contains (scanned upstream) CRLFCRLF" and "streamEnd upstream = Some e"
  shows "\<exists>upstream'. proxyResponseWithHeaderInjection upstream client
           = (Returns (Some (HeaderReadError e)), upstream', client)"
proof -
  from assms have "\<exists>src'. readHeader [] upstream = (Returns (Inl e), src')"
    by (intro readHeader_error) simp_all
  then show ?thesis
    by (auto simp: proxyResponseWithHeaderInjection_def)
qed

theorem relay_no_terminator_reports_error_witness:
  "\<exists>upstream'. proxyResponseWithHeaderInjection
       [Deliver (''A: 1'' @ CRLF @ ''B: 2'' @ CRLF) None] \<lparr>writes = [], sent = []\<rparr>
     = (Returns (Some (HeaderReadError EOF)), upstream', \<lparr>writes = [], sent = []\<rparr>)"
proof -
  have 1: "\<not> Contains (scanned [Deliver (''A: 1'' @ CRLF @ ''B: 2'' @ CRLF) None]) CRLFCRLF"
    by (simp add: Contains_def CRLF_def CRLFCRLF_def CR_def LF_def)
  have 2: "streamEnd [Deliver (''A: 1'' @ CRLF @ ''B: 2'' @ CRLF) None] = Some EOF"
    by simp
  from relay_no_terminator_reports_error [OF 1 2] show ?thesis .
qed

text \<open>
  Claim C9: whenever the header scan stops with a buffer, the buffer is some \<open>h\<close>
  followed by the terminator, the first occurrence of the terminator is at its very
  end, and the split yields \<open>h\<close> and an empty leftover; the relay never returns the
  malformed-headers error.
\<close>

theorem header_scan_stops_at_terminator:
  "(readHeader [] upstream = (Returns (Inr rawHeaders), upstream') \<longrightarrow>
      (\<exists>h. rawHeaders = h @ CRLFCRLF \<and> Index rawHeaders CRLFCRLF = Some (length h) \<and>
            SplitN2 rawHeaders CRLFCRLF = [h, []])) \<and>
   fst (proxyResponseWithHeaderInjection upstream client) \<noteq> Returns (Some MalformedHeaders)"
proof (intro conjI impI)
  assume r: "readHeader [] upstream = (Returns (Inr rawHeaders), upstream')"
  from readHeader_terminated [OF r] obtain h where
    h: "rawHeaders = h @ CRLFCRLF" "\<not> Contains (h @ butlast CRLFCRLF) CRLFCRLF"
    by auto
  with SplitN2_terminated [OF h(2)]
  show "\<exists>h. rawHeaders = h @ CRLFCRLF \<and> Index rawHeaders CRLFCRLF = Some (length h) \<and>
            SplitN2 rawHeaders CRLFCRLF = [h, []]"
    by auto
next
  obtain rr up1 where r: "readHeader [] upstream = (rr, up1)" by (cases "readHeader [] upstream")
  show "fst (proxyResponseWithHeaderInjection upstream client) \<noteq> Returns (Some MalformedHeaders)"
  proof (cases rr)
    case Blocked
    with r show ?thesis by (simp add: proxyResponseWithHeaderInjection_def)
  next
    case (Returns res)
    show ?thesis
    proof (cases res)
      case (Inl e)
      with r Returns show ?thesis by (simp add: proxyResponseWithHeaderInjection_def)
    next
      case (Inr raw)
      from readHeader_terminated [OF r [unfolded Returns Inr]] obtain h where
        h: "raw = h @ CRLFCRLF" "\<not> Contains (h @ butlast CRLFCRLF) CRLFCRLF"
        by auto
      note rel = relay_after_scan [OF r [unfolded Returns Inr h(1)] h(2), of client]
      show ?thesis
        unfolding rel
        by (auto split: prod.splits option.splits dest: copyData_errors)
    qed
  qed
qed

theorem header_scan_stops_at_terminator_witness:
  "readHeader [] [Deliver (''A: 1'' @ CRLFCRLF @ ''BODY'') None]
     = (Returns (Inr (''A: 1'' @ CRLFCRLF)), [Deliver ''BODY'' None]) \<and>
   Index (''A: 1'' @ CRLFCRLF) CRLFCRLF = Some 4 \<and>
   SplitN2 (''A: 1'' @ CRLFCRLF) CRLFCRLF = [''A: 1'', []] \<and>
   fst (proxyResponseWithHeaderInjection [Deliver (''A: 1'' @ CRLFCRLF @ ''BODY'') None]
          \<lparr>writes = [], sent = []\<rparr>) \<noteq> Returns (Some MalformedHeaders)"
proof -
  have r: "readHeader [] [Deliver (''A: 1'' @ CRLFCRLF @ ''BODY'') None]
     = (Returns (Inr (''A: 1'' @ CRLFCRLF)), [Deliver ''BODY'' None])"
    by (simp add: readHeader.simps Contains_def CRLFCRLF_def CR_def LF_def)
  from header_scan_stops_at_terminator [of "[Deliver (''A: 1'' @ CRLFCRLF @ ''BODY'') None]" "''A: 1'' @ CRLFCRLF"
      "[Deliver ''BODY'' None]" "\<lparr>writes = [], sent = []\<rparr>"] r
  show ?thesis by auto
qed

section \<open>Properties of the session\<close>

lemma plainRequest_facts:
  "parseHTTPHeaders plainRequest = Inr (''1.1'', [])" "plainRequest \<noteq> []"
  "length plainRequest \<le> 4096"
  by (simp_all add: plainRequest_def parseHTTPHeaders_def versionOf_def Split_def CRLF_def
      CRLFCRLF_def CR_def LF_def HasPrefix_def)

lemma closeRequest_facts:
  "parseHTTPHeaders closeRequest = Inr (''1.1'', ''close'')" "closeRequest \<noteq> []"
  "length closeRequest \<le> 4096"
  by (simp_all add: closeRequest_def parseHTTPHeaders_def versionOf_def Split_def CRLF_def
      CRLFCRLF_def CR_def LF_def HasPrefix_def asciiSpace_def byte_def)

lemma keep_plain: "shouldKeepAlive t ''1.1'' []"
  by (simp add: shouldKeepAlive_def ToLower_def asciiSpace_def byte_def)

lemma readHeader_Blocked:
  "readHeader buf src = (Blocked, src') \<Longrightarrow> streamEnd src = None"
proof (induction buf src arbitrary: src' rule: readHeader.induct)
  case (1 buf src)
  obtain rr src1 where R: "Read 1 src = (rr, src1)" by (cases "Read 1 src")
  show ?case
  proof (cases rr)
    case Blocked
    with R Read_Blocked_stream show ?thesis by blast
  next
    case (Returns cr)
    obtain tmp err where cr: "cr = (tmp, err)" by (cases cr)
    note R' = R [unfolded Returns cr]
    show ?thesis
    proof (cases err)
      case (Some e)
      with "1.prems" R Returns cr show ?thesis by (simp add: readHeader.simps [of buf src])
    next
      case None
      note S = Read_Returns_stream [OF R', unfolded None, simplified]
      show ?thesis
      proof (cases "Contains (buf @ tmp) CRLFCRLF")
        case True
        with "1.prems" R Returns cr None show ?thesis
          by (simp add: readHeader.simps [of buf src])
      next
        case False
        with "1.prems" R Returns cr None
        have rec: "readHeader (buf @ tmp) src1 = (Blocked, src')"
          by (simp add: readHeader.simps [of buf src])
        from "1.IH" [OF R [symmetric] Returns cr [symmetric] None False rec] S
        show ?thesis by simp
      qed
    qed
  qed
qed

lemma copyData_Blocked:
  "copyData dst src = (Blocked, dst', src') \<Longrightarrow> streamEnd src = None"
proof (induction dst src arbitrary: dst' src' rule: copyData.induct)
  case (1 dst src)
  obtain rr src1 where R: "Read (32 * 1024) src = (rr, src1)" by (cases "Read (32 * 1024) src")
  show ?case
  proof (cases rr)
    case Blocked
    with R Read_Blocked_stream show ?thesis by blast
  next
    case (Returns cr)
    obtain chunk readErr where cr: "cr = (chunk, readErr)" by (cases cr)
    obtain werr dst1 where
      W: "(if chunk \<noteq> [] then writeChunk chunk dst else (None, dst)) = (werr, dst1)"
      by (metis prod.exhaust)
    note S = Read_Returns_stream [OF R [unfolded Returns cr]]
    show ?thesis
    proof (cases "werr = None \<and> readErr = None")
      case True
      with "1.prems" R Returns cr W have rec: "copyData dst1 src1 = (Blocked, dst', src')"
        by (simp add: copyData.simps [of dst src])
      from "1.IH" [OF R [symmetric] Returns cr [symmetric] W [symmetric] _ _ rec] True S
      show ?thesis by simp
    next
      case False
      with "1.prems" R Returns cr W show ?thesis
        by (auto simp: copyData.simps [of dst src] split: option.splits ioerr.splits)
    qed
  qed
qed

lemma relay_returns:
  assumes "streamEnd upstream \<noteq> None"
  shows "\<exists>res upstream' client'.
           proxyResponseWithHeaderInjection upstream client = (Returns res, upstream', client')"
proof -
  obtain rr up1 where r: "readHeader [] upstream = (rr, up1)" by (cases "readHeader [] upstream")
  show ?thesis
  proof (cases rr)
    case Blocked
    from r [unfolded Blocked] have "streamEnd upstream = None" by (rule readHeader_Blocked)
    with assms show ?thesis by simp
  next
    case (Returns res)
    show ?thesis
    proof (cases res)
      case (Inl e)
      with r Returns show ?thesis by (simp add: proxyResponseWithHeaderInjection_def)
    next
      case (Inr raw)
      from readHeader_terminated [OF r [unfolded Returns Inr]] obtain h where
        h: "raw = h @ CRLFCRLF" "\<not> Contains (h @ butlast CRLFCRLF) CRLFCRLF"
          "streamEnd upstream = streamEnd up1"
        by auto
      note rel = relay_after_scan [OF r [unfolded Returns Inr h(1)] h(2), of client]
      have nb: "fst (copyData c up1) \<noteq> Blocked" for c
        using copyData_Blocked [of c up1] h(3) assms by (metis prod.collapse)
      show ?thesis
        unfolding rel using nb
        by (auto split: prod.splits option.splits) (metis fst_conv outcome.exhaust)
    qed
  qed
qed

lemma passthrough_three:
  assumes "writes uw = []"
    and "r2 \<noteq> []" "length r2 \<le> 4096" "r3 \<noteq> []" "length r3 \<le> 4096"
    and "r4 \<noteq> []" "length r4 \<le> 4096"
  shows "passthrough [Deliver r2 None, Deliver r3 None, Deliver r4 None] uw
           = (Returns [], [], uw\<lparr>sent := sent uw @ r2 @ r3 @ r4\<rparr>)"
  using assms by (simp add: passthrough.simps Write.simps)

lemma sessionLoop_events:
  "sessionLoop t c u = (x, evs, c', u') \<Longrightarrow> list_all inLoop evs"
proof (induction t c u arbitrary: x evs c' u' rule: sessionLoop.induct)
  case (1 t c u)
  show ?case
    using "1.prems" "1.IH"
    apply (subst (asm) sessionLoop.simps)
    apply (auto simp: list_all_iff
        split: prod.splits outcome.splits option.splits sum.splits if_splits)
    done
qed

text \<open>
  Every session that gets its upstream connection dials once, before anything else,
  and never again; the two closes are its last two events, and they happen exactly
  when the goroutine does not block for ever. A session whose dial fails closes the
  client and has read nothing from it.
\<close>

lemma one_upstream_connection_per_session:
  assumes "handleProxyConnection t (Some upstreamConn) clientConn = (x, evs, c, u)"
  shows "\<exists>mid. list_all inLoop mid \<and>
           (if x = Hung then evs = Dial # mid
            else evs = Dial # mid @ [CloseUpstream, CloseClient])"
proof -
  obtain x' mid c' u' where s: "sessionLoop t clientConn upstreamConn = (x', mid, c', u')"
    by (metis prod.exhaust)
  from sessionLoop_events [OF s] have "list_all inLoop mid" .
  with assms s show ?thesis
    by (cases x') (auto simp: handleProxyConnection_def)
qed

lemma dial_failure_consumes_nothing:
  "handleProxyConnection t None clientConn
     = (Returned, [Log ErrorConnectingToUpstream, CloseClient], clientConn, None)"
  by (simp add: handleProxyConnection_def)

text \<open>
  Claim C3, as stated, fails. In this session the response relay of the first cycle
  returns a read error (the upstream read fails) and the passthrough ends on a write
  error, which it logs; the session still goes on to the keep-alive decision, logs
  that the connection is kept alive, and starts a second cycle: it reads and inspects
  another chunk from the client.
\<close>

theorem session_continues_after_relay_errors_counterexample:
  "proxyResponseWithHeaderInjection [Deliver [] (Some Failure)] \<lparr>writes = [], sent = []\<rparr>
     = (Returns (Some (HeaderReadError Failure)), [], \<lparr>writes = [], sent = []\<rparr>) \<and>
   fst (snd (handleProxyConnection noCaseTable
     (Some \<lparr>rd = [Deliver [] (Some Failure)],
            wr = \<lparr>writes = [Accept 4096 None, Accept 0 (Some Failure), Accept 0 (Some Failure)],
                  sent = []\<rparr>\<rparr>)
     \<lparr>rd = [Deliver plainRequest None, Deliver plainRequest None, Deliver plainRequest None],
      wr = \<lparr>writes = [], sent = []\<rparr>\<rparr>))
   = [Dial, Request plainRequest, Forwarded, Log ErrorWritingData, Joined,
      Log ConnectionKeptAlive, Request plainRequest,
      Log ErrorWritingToUpstream, CloseUpstream, CloseClient]"
  by (simp add: handleProxyConnection_def sessionLoop.simps proxyData_def
      proxyResponseWithHeaderInjection_def readHeader.simps passthrough.simps Write.simps
      plainRequest_facts keep_plain)

text \<open>
  Claim C3, amended. An error on the session loop's own read from the client, and an
  error on its own write of the chunk to the upstream, end the session at once. An
  error inside a relay direction ends that direction only: whatever the response relay
  returns (\<open>relayError\<close>) and whatever the passthrough logs, once both have returned
  the session evaluates the keep-alive decision, and it starts another cycle exactly
  when the decision is to continue.
\<close>

theorem relay_errors_do_not_end_session:
  "(Read 4096 (rd clientConn) = (Returns (buffer, Some err), cr) \<longrightarrow>
      sessionLoop t clientConn upstreamConn
        = (Returned, (if err \<noteq> EOF then [Log ErrorReadingFromClient] else []),
           clientConn\<lparr>rd := cr\<rparr>, upstreamConn)) \<and>
   (Read 4096 (rd clientConn) = (Returns (buffer, None), cr) \<and> buffer \<noteq> [] \<and>
    parseHTTPHeaders buffer = Inr (version, connectionHeader) \<and>
    Write buffer (wr upstreamConn) = ((n, Some err), uw) \<longrightarrow>
      sessionLoop t clientConn upstreamConn
        = (Returned, [Request buffer, Log ErrorWritingToUpstream],
           clientConn\<lparr>rd := cr\<rparr>, upstreamConn\<lparr>wr := uw\<rparr>)) \<and>
   (Read 4096 (rd clientConn) = (Returns (buffer, None), cr) \<and> buffer \<noteq> [] \<and>
    parseHTTPHeaders buffer = Inr (version, connectionHeader) \<and>
    Write buffer (wr upstreamConn) = ((n, None), uw) \<and>
    proxyResponseWithHeaderInjection (rd upstreamConn) (wr clientConn)
      = (Returns relayError, ur, cw) \<and>
    passthrough cr uw = (Returns log2, cr2, uw2) \<longrightarrow>
      sessionLoop t clientConn upstreamConn
        = (if shouldKeepAlive t version connectionHeader
           then (case sessionLoop t \<lparr>rd = cr2, wr = cw\<rparr> \<lparr>rd = ur, wr = uw2\<rparr> of
                   (x, evs, c, u) \<Rightarrow>
                     (x, [Request buffer, Forwarded] @ map Log log2
                           @ [Joined, Log ConnectionKeptAlive] @ evs, c, u))
           else (Returned, [Request buffer, Forwarded] @ map Log log2
                             @ [Joined, Log ConnectionClosing],
                 \<lparr>rd = cr2, wr = cw\<rparr>, \<lparr>rd = ur, wr = uw2\<rparr>)))"
proof (intro conjI impI)
  assume "Read 4096 (rd clientConn) = (Returns (buffer, Some err), cr)"
  then show "sessionLoop t clientConn upstreamConn
        = (Returned, (if err \<noteq> EOF then [Log ErrorReadingFromClient] else []),
           clientConn\<lparr>rd := cr\<rparr>, upstreamConn)"
    by (subst sessionLoop.simps) simp
next
  assume "Read 4096 (rd clientConn) = (Returns (buffer, None), cr) \<and> buffer \<noteq> [] \<and>
    parseHTTPHeaders buffer = Inr (version, connectionHeader) \<and>
    Write buffer (wr upstreamConn) = ((n, Some err), uw)"
  then show "sessionLoop t clientConn upstreamConn
        = (Returned, [Request buffer, Log ErrorWritingToUpstream],
           clientConn\<lparr>rd := cr\<rparr>, upstreamConn\<lparr>wr := uw\<rparr>)"
    by (subst sessionLoop.simps) simp
next
  assume "Read 4096 (rd clientConn) = (Returns (buffer, None), cr) \<and> buffer \<noteq> [] \<and>
    parseHTTPHeaders buffer = Inr (version, connectionHeader) \<and>
    Write buffer (wr upstreamConn) = ((n, None), uw) \<and>
    proxyResponseWithHeaderInjection (rd upstreamConn) (wr clientConn)
      = (Returns relayError, ur, cw) \<and>
    passthrough cr uw = (Returns log2, cr2, uw2)"
  then show "sessionLoop t clientConn upstreamConn
        = (if shouldKeepAlive t version connectionHeader
           then (case sessionLoop t \<lparr>rd = cr2, wr = cw\<rparr> \<lparr>rd = ur, wr = uw2\<rparr> of
                   (x, evs, c, u) \<Rightarrow>
                     (x, [Request buffer, Forwarded] @ map Log log2
                           @ [Joined, Log ConnectionKeptAlive] @ evs, c, u))
           else (Returned, [Request buffer, Forwarded] @ map Log log2
                             @ [Joined, Log ConnectionClosing],
                 \<lparr>rd = cr2, wr = cw\<rparr>, \<lparr>rd = ur, wr = uw2\<rparr>))"
    by (subst sessionLoop.simps) (simp add: proxyData_def)
qed

theorem relay_errors_do_not_end_session_witness:
  "sessionLoop noCaseTable
     \<lparr>rd = [Deliver plainRequest None, Deliver plainRequest None, Deliver plainRequest None],
      wr = \<lparr>writes = [], sent = []\<rparr>\<rparr>
     \<lparr>rd = [Deliver [] (Some Failure)],
      wr = \<lparr>writes = [Accept 4096 None, Accept 0 (Some Failure)], sent = []\<rparr>\<rparr>
   = (case sessionLoop noCaseTable
       \<lparr>rd = [Deliver plainRequest None], wr = \<lparr>writes = [], sent = []\<rparr>\<rparr>
       \<lparr>rd = [], wr = \<lparr>writes = [], sent = plainRequest\<rparr>\<rparr> of
       (x, evs, c, u) \<Rightarrow>
         (x, [Request plainRequest, Forwarded, Log ErrorWritingData, Joined,
              Log ConnectionKeptAlive] @ evs, c, u))"
proof -
  let ?client = "\<lparr>rd = [Deliver plainRequest None, Deliver plainRequest None,
                        Deliver plainRequest None],
                  wr = \<lparr>writes = [], sent = []\<rparr>\<rparr>"
  let ?upstream = "\<lparr>rd = [Deliver [] (Some Failure)],
      wr = \<lparr>writes = [Accept 4096 None, Accept 0 (Some Failure)], sent = []\<rparr>\<rparr>"
  let ?cr = "[Deliver plainRequest None, Deliver plainRequest None]"
  let ?uw = "\<lparr>writes = [Accept 0 (Some Failure)], sent = plainRequest\<rparr>"
  have 1: "Read 4096 (rd ?client) = (Returns (plainRequest, None), ?cr)"
    by (simp add: plainRequest_facts)
  have 2: "Write plainRequest (wr ?upstream) = ((length plainRequest, None), ?uw)"
    using plainRequest_facts(3) by (simp add: Write.simps)
  have 3: "proxyResponseWithHeaderInjection (rd ?upstream) (wr ?client)
      = (Returns (Some (HeaderReadError Failure)), [], \<lparr>writes = [], sent = []\<rparr>)"
    by (simp add: proxyResponseWithHeaderInjection_def readHeader.simps)
  have 4: "passthrough ?cr ?uw
      = (Returns [ErrorWritingData], [Deliver plainRequest None],
         \<lparr>writes = [], sent = plainRequest\<rparr>)"
    by (simp add: passthrough.simps Write.simps plainRequest_facts)
  from relay_errors_do_not_end_session [of ?client plainRequest Failure ?cr noCaseTable ?upstream "''1.1''" "[]"
      "length plainRequest" ?uw "Some (HeaderReadError Failure)" "[]"
      "\<lparr>writes = [], sent = []\<rparr>" "[ErrorWritingData]" "[Deliver plainRequest None]"
      "\<lparr>writes = [], sent = plainRequest\<rparr>"]
    1 2 3 4 plainRequest_facts keep_plain [of noCaseTable]
  show ?thesis by (simp add: split_def)
qed

text \<open>The response relay on four responses that arrive one after the other: only the
  first gets the header line; the other three are relayed as its body.\<close>

lemma relay_example:
  "proxyResponseWithHeaderInjection
     [Deliver exampleResponse None, Deliver exampleResponse None,
      Deliver exampleResponse None, Deliver exampleResponse None]
     \<lparr>writes = [], sent = []\<rparr>
   = (Returns None, [],
      \<lparr>writes = [],
       sent = ''HTTP/1.1 200 OK'' @ CRLF @ ''Foo: Bar'' @ CRLFCRLF @ ''ok''
                @ exampleResponse @ exampleResponse @ exampleResponse\<rparr>)"
  by (simp add: proxyResponseWithHeaderInjection_def exampleResponse_def readHeader.simps
      Contains_def CRLFCRLF_def CRLF_def CR_def LF_def SplitN2_def Split_def
      copyData.simps writeChunk_def Write.simps)

text \<open>
  Claim C7, as stated, fails. The client sends three HTTP/1.1 requests without
  \<^verbatim>\<open>Connection: close\<close> and a fourth with it, then closes; the upstream answers four
  times and closes. The session performs one cycle, not four: the passthrough of the
  first cycle takes requests two to four, and the session ends at the next read from
  the client, on end-of-stream, without ever deciding on the fourth request.
\<close>

theorem four_requests_one_cycle_counterexample:
  "cycles [Dial, Request plainRequest, Forwarded, Joined, Log ConnectionKeptAlive,
           CloseUpstream, CloseClient] = 1 \<and>
   handleProxyConnection noCaseTable
     (Some \<lparr>rd = [Deliver exampleResponse None, Deliver exampleResponse None,
                  Deliver exampleResponse None, Deliver exampleResponse None],
            wr = \<lparr>writes = [], sent = []\<rparr>\<rparr>)
     \<lparr>rd = [Deliver plainRequest None, Deliver plainRequest None, Deliver plainRequest None,
            Deliver closeRequest None],
      wr = \<lparr>writes = [], sent = []\<rparr>\<rparr>
   = (Returned,
      [Dial, Request plainRequest, Forwarded, Joined, Log ConnectionKeptAlive,
       CloseUpstream, CloseClient],
      \<lparr>rd = [],
       wr = \<lparr>writes = [],
             sent = ''HTTP/1.1 200 OK'' @ CRLF @ ''Foo: Bar'' @ CRLFCRLF @ ''ok''
                      @ exampleResponse @ exampleResponse @ exampleResponse\<rparr>\<rparr>,
      Some \<lparr>rd = [],
            wr = \<lparr>writes = [],
                  sent = plainRequest @ plainRequest @ plainRequest @ closeRequest\<rparr>\<rparr>)"
  by (simp add: cycles_def handleProxyConnection_def sessionLoop.simps proxyData_def
      relay_example passthrough.simps Write.simps plainRequest_facts closeRequest_facts
      keep_plain)

text \<open>
  Claim C7, amended. For a session whose client delivers four requests in four
  successive reads and then closes, where the decider keeps the first request alive
  (whatever requests two to four say, so also when the fourth carries
  \<^verbatim>\<open>Connection: close\<close>), over an upstream that accepts every write and whose response
  stream ends or fails at some point: the upstream connection is dialed once, at the
  start, and closed only at the end; the session performs exactly one
  read-forward-relay cycle, whose passthrough forwards requests two to four to the
  upstream; it continues after that cycle and returns at the next read from the
  client, on end-of-stream, closing both connections.
\<close>

theorem four_requests_one_cycle:
  assumes client: "rd clientConn = [Deliver r1 None, Deliver r2 None, Deliver r3 None, Deliver r4 None]"
    and r1: "r1 \<noteq> []" "length r1 \<le> 4096"
    and rest: "r2 \<noteq> []" "length r2 \<le> 4096" "r3 \<noteq> []" "length r3 \<le> 4096"
      "r4 \<noteq> []" "length r4 \<le> 4096"
    and first: "parseHTTPHeaders r1 = Inr (version, connectionHeader)"
      "shouldKeepAlive t version connectionHeader"
    and up: "writes (wr upstreamConn) = []" "streamEnd (rd upstreamConn) \<noteq> None"
  shows "\<exists>c u. handleProxyConnection t (Some upstreamConn) clientConn
           = (Returned,
              [Dial, Request r1, Forwarded, Joined, Log ConnectionKeptAlive,
               CloseUpstream, CloseClient],
              c, Some u) \<and>
           rd c = [] \<and>
           sent (wr u) = sent (wr upstreamConn) @ r1 @ r2 @ r3 @ r4"
proof -
  from relay_returns [OF up(2), of "wr clientConn"] obtain res ur cw where
    relay: "proxyResponseWithHeaderInjection (rd upstreamConn) (wr clientConn)
              = (Returns res, ur, cw)"
    by blast
  let ?uw = "(wr upstreamConn)\<lparr>sent := sent (wr upstreamConn) @ r1\<rparr>"
  have w: "Write r1 (wr upstreamConn) = ((length r1, None), ?uw)"
    using up(1) by (simp add: Write.simps)
  have pt: "passthrough [Deliver r2 None, Deliver r3 None, Deliver r4 None] ?uw
           = (Returns [], [], ?uw\<lparr>sent := sent ?uw @ r2 @ r3 @ r4\<rparr>)"
    using up(1) rest by (intro passthrough_three) simp_all
  have last: "sessionLoop t \<lparr>rd = [], wr = cw\<rparr> u = (Returned, [], \<lparr>rd = [], wr = cw\<rparr>, u)" for u
    by (simp add: sessionLoop.simps)
  have "sessionLoop t clientConn upstreamConn
          = (Returned, [Request r1, Forwarded, Joined, Log ConnectionKeptAlive],
             \<lparr>rd = [], wr = cw\<rparr>, \<lparr>rd = ur, wr = ?uw\<lparr>sent := sent ?uw @ r2 @ r3 @ r4\<rparr>\<rparr>)"
    apply (subst sessionLoop.simps)
    apply (simp add: client r1 first w proxyData_def relay pt last)
    done
  then show ?thesis
    by (simp add: handleProxyConnection_def)
qed

theorem four_requests_one_cycle_witness:
  "\<exists>c u. handleProxyConnection noCaseTable
            (Some \<lparr>rd = [Deliver exampleResponse None, Deliver [] (Some Failure)],
                   wr = \<lparr>writes = [], sent = []\<rparr>\<rparr>)
            \<lparr>rd = [Deliver plainRequest None, Deliver plainRequest None,
                   Deliver plainRequest None, Deliver closeRequest None],
             wr = \<lparr>writes = [], sent = []\<rparr>\<rparr>
          = (Returned,
             [Dial, Request plainRequest, Forwarded, Joined, Log ConnectionKeptAlive,
              CloseUpstream, CloseClient],
             c, Some u) \<and>
          rd c = [] \<and>
          sent (wr u) = plainRequest @ plainRequest @ plainRequest @ closeRequest"
proof -
  let ?client = "\<lparr>rd = [Deliver plainRequest None, Deliver plainRequest None,
      Deliver plainRequest None, Deliver closeRequest None],
      wr = \<lparr>writes = [], sent = []\<rparr>\<rparr>"
  let ?upstream = "\<lparr>rd = [Deliver exampleResponse None, Deliver [] (Some Failure)],
                   wr = \<lparr>writes = [], sent = []\<rparr>\<rparr>"
  have "\<exists>c u. handleProxyConnection noCaseTable (Some ?upstream) ?client
           = (Returned,
              [Dial, Request plainRequest, Forwarded, Joined, Log ConnectionKeptAlive,
               CloseUpstream, CloseClient],
              c, Some u) \<and>
           rd c = [] \<and>
           sent (wr u) = sent (wr ?upstream) @ plainRequest @ plainRequest @ plainRequest
                           @ closeRequest"
    by (rule four_requests_one_cycle [where version = "''1.1''" and connectionHeader = "[]"])
      (simp_all add: plainRequest_facts closeRequest_facts keep_plain)
  then show ?thesis by simp
qed

end
